theory Spec2Isabelle
  imports Complex_Main "HOL-Library.Word"
begin

section \<open>Numbers\<close>

text \<open>
  The C++ sources compute on \<open>float\<close> and \<open>double\<close>. The embedding reads both as
  exact real numbers: comparisons, sums and products are the mathematical ones, and
  rounding, infinities and NaN are left out. The one exception is the goal-tolerance
  check on a \<open>float\<close> tolerance, where a single-precision product meets a
  \<open>double\<close> and the rounding is a parameter. Index types (\<open>size_t\<close>,
  \<open>unsigned int\<close>, \<open>int\<close>) are natural numbers, every container being small
  enough for the index type that counts it; where the source subtracts from an unsigned
  zero, the wrapped value is written out.
\<close>

type_synonym float = real

text \<open>\<open>std::max(a, b)\<close> is \<open>(a < b) ? b : a\<close> and \<open>std::min(a, b)\<close> is
  \<open>(b < a) ? b : a\<close>.\<close>

definition std_max :: "float \<Rightarrow> float \<Rightarrow> float" where
  "std_max a b = (if a < b then b else a)"

definition std_min :: "float \<Rightarrow> float \<Rightarrow> float" where
  "std_min a b = (if b < a then b else a)"

section \<open>mppi::utils::clamp\<close>

definition clamp :: "float \<Rightarrow> float \<Rightarrow> float \<Rightarrow> float" where
  "clamp lower_bound upper_bound input =
     std_min upper_bound (std_max input lower_bound)"

section \<open>Messages\<close>

text \<open>\<open>geometry_msgs::msg::Point\<close>, \<open>Quaternion\<close> and \<open>Pose\<close>. A
  \<open>nav_msgs::msg::Path\<close> is read as its \<open>poses\<close> vector; header and stamps take no part
  in the functions below.\<close>

record Point =
  pos_x :: float
  pos_y :: float
  pos_z :: float

record Quaternion =
  ori_x :: float
  ori_y :: float
  ori_z :: float
  ori_w :: float

record Pose =
  position :: Point
  orientation :: Quaternion

type_synonym nav_path = "Pose list"

definition createPose :: "float \<Rightarrow> float \<Rightarrow> float \<Rightarrow> Pose" where
  "createPose x y z =
     \<lparr>position = \<lparr>pos_x = x, pos_y = y, pos_z = z\<rparr>,
      orientation = \<lparr>ori_x = 0, ori_y = 0, ori_z = 0, ori_w = 1\<rparr>\<rparr>"

section \<open>mppi::utils::findFirstPathInversion\<close>

text \<open>The body of the \<open>for\<close> loop up to the test: the dot product of OA and AB at the
  middle index \<open>idx\<close> of a triple.\<close>

definition dot_product_at :: "nav_path \<Rightarrow> nat \<Rightarrow> float" where
  "dot_product_at poses idx =
     (let oa_x = pos_x (position (poses ! idx)) - pos_x (position (poses ! (idx - 1)));
          oa_y = pos_y (position (poses ! idx)) - pos_y (position (poses ! (idx - 1)));
          ab_x = pos_x (position (poses ! (idx + 1))) - pos_x (position (poses ! idx));
          ab_y = pos_y (position (poses ! (idx + 1))) - pos_y (position (poses ! idx))
      in (oa_x * ab_x) + (oa_y * ab_y))"

text \<open>\<open>for (idx = 1; idx < path.poses.size() - 1; ++idx)\<close>, entered only with at least
  three poses, so every read is in range.\<close>

function findFirstPathInversion_loop :: "nav_path \<Rightarrow> nat \<Rightarrow> nat" where
  "findFirstPathInversion_loop poses idx =
     (if idx < length poses - 1
      then (if dot_product_at poses idx < 0 then idx + 1
            else findFirstPathInversion_loop poses (idx + 1))
      else length poses)"
  by pat_completeness auto
termination
  by (relation "measure (\<lambda>(poses, idx). length poses - idx)") auto

declare findFirstPathInversion_loop.simps [simp del]

definition findFirstPathInversion :: "nav_path \<Rightarrow> nat" where
  "findFirstPathInversion path =
     (if length path < 3 then length path else findFirstPathInversion_loop path 1)"

section \<open>mppi::utils::removePosesAfterFirstInversion\<close>

text \<open>The path is passed by reference and assigned at the end, so the function returns
  the path object after the call together with the returned index.\<close>

definition removePosesAfterFirstInversion :: "nav_path \<Rightarrow> nav_path \<times> nat" where
  "removePosesAfterFirstInversion path =
     (let cropped_path = path;
          first_after_inversion = findFirstPathInversion cropped_path
      in if first_after_inversion = length path then (path, 0)
         else (take first_after_inversion cropped_path, first_after_inversion))"

text \<open>The path (0,0), (1,0), (2,0), (1,0), (0,0).\<close>

definition there_and_back :: nav_path where
  "there_and_back =
     [createPose 0 0 0, createPose 1 0 0, createPose 2 0 0, createPose 1 0 0, createPose 0 0 0]"

section \<open>Errors\<close>

text \<open>Exceptions the functions throw, and reads outside an Eigen array (unchecked in the
  source) made visible.\<close>

datatype error =
    runtime_error string
  | logic_error string
  | IndexOutOfRange

section \<open>Optimizer data\<close>

text \<open>An \<open>Eigen::ArrayXXf\<close> is its two dimensions and its coefficients in one block
  of memory, column after column (Eigen's default storage order): coefficient
  \<open>(i, j)\<close> is at offset \<open>j * rows + i\<close>. One-dimensional arrays
  (\<open>Eigen::ArrayXf\<close>) are plain lists where only their elements matter.\<close>

record ArrayXXf =
  arr_rows :: nat
  arr_cols :: nat
  arr_data :: "float list"

definition coeff :: "ArrayXXf \<Rightarrow> nat \<Rightarrow> nat \<Rightarrow> float" where
  "coeff e i j = arr_data e ! (j * arr_rows e + i)"

text \<open>\<open>models::Path\<close> holds three arrays of one size; \<open>models::Trajectories\<close> holds
  three arrays with one row per sampled trajectory and one column per time step.
  \<open>CriticData\<close> is the bundle handed to the critics, with its two optional caches.\<close>

record Path =
  path_x :: "float list"
  path_y :: "float list"
  path_yaws :: "float list"

record Trajectories =
  traj_x :: ArrayXXf
  traj_y :: ArrayXXf
  traj_yaws :: ArrayXXf

record CriticData =
  trajectories :: Trajectories
  path :: Path
  goal :: Pose
  furthest_reached_path_point :: "nat option"
  path_pts_valid :: "bool list option"

section \<open>mppi::utils::getLastPathPose and getCriticGoal\<close>

text \<open>\<open>tf2::Quaternion::setRPY\<close> belongs to an external library; it is a parameter
  \<open>setRPY\<close> giving the quaternion of roll, pitch and yaw. The index is an
  \<open>unsigned int\<close>, so the size minus one is taken modulo \<open>2^32\<close>. The position's
  \<open>z\<close> keeps the message default 0.\<close>

definition getLastPathPose ::
  "(float \<Rightarrow> float \<Rightarrow> float \<Rightarrow> Quaternion) \<Rightarrow> Path \<Rightarrow> error + Pose" where
  "getLastPathPose setRPY p =
     (let path_last_idx = nat ((int (length (path_x p)) - 1) mod 4294967296)
      in if path_last_idx < length (path_yaws p) \<and> path_last_idx < length (path_x p)
            \<and> path_last_idx < length (path_y p)
         then (let last_orientation = path_yaws p ! path_last_idx;
                   pose_orientation = setRPY 0 0 last_orientation
               in Inr \<lparr>position = \<lparr>pos_x = path_x p ! path_last_idx,
                                     pos_y = path_y p ! path_last_idx,
                                     pos_z = 0\<rparr>,
                        orientation = \<lparr>ori_x = ori_x pose_orientation,
                                        ori_y = ori_y pose_orientation,
                                        ori_z = ori_z pose_orientation,
                                        ori_w = ori_w pose_orientation\<rparr>\<rparr>)
         else Inl IndexOutOfRange)"

definition getCriticGoal ::
  "(float \<Rightarrow> float \<Rightarrow> float \<Rightarrow> Quaternion) \<Rightarrow> CriticData \<Rightarrow> bool \<Rightarrow> error + Pose" where
  "getCriticGoal setRPY data enforce_path_inversion =
     (if enforce_path_inversion then getLastPathPose setRPY (path data)
      else Inr (goal data))"

section \<open>mppi::utils::withinPositionGoalTolerance\<close>





section \<open>mppi::utils::findPathCosts and setPathCostsIfNotSet\<close>

text \<open>The cost grid is an external collaborator, consumed through three queries:
  \<open>worldToMap\<close> (no cell when the point lies outside the grid), \<open>getCost\<close> and
  \<open>isTrackingUnknown\<close>. Costs are \<open>unsigned char\<close>. The three named cost values come
  from a header outside these sources and are parameters.\<close>

type_synonym cost = "8 word"

record Costmap2DROS =
  worldToMap :: "float \<Rightarrow> float \<Rightarrow> (nat \<times> nat) option"
  getCost :: "nat \<Rightarrow> nat \<Rightarrow> cost"
  isTrackingUnknown :: bool

record cost_values =
  LETHAL_OBSTACLE :: cost
  INSCRIBED_INFLATED_OBSTACLE :: cost
  NO_INFORMATION :: cost

text \<open>One iteration of the loop: the value stored at \<open>idx\<close>. The \<open>switch\<close> takes its
  cases in order.\<close>

definition path_pt_valid :: "cost_values \<Rightarrow> Costmap2DROS \<Rightarrow> Path \<Rightarrow> nat \<Rightarrow> bool" where
  "path_pt_valid cv costmap_ros p idx =
     (case worldToMap costmap_ros (path_x p ! idx) (path_y p ! idx) of
        None \<Rightarrow> False
      | Some (map_x, map_y) \<Rightarrow>
          (let c = getCost costmap_ros map_x map_y
           in if c = LETHAL_OBSTACLE cv then False
              else if c = INSCRIBED_INFLATED_OBSTACLE cv then False
              else if c = NO_INFORMATION cv
                   then (if isTrackingUnknown costmap_ros then True else False)
              else True))"

function findPathCosts_loop ::
  "cost_values \<Rightarrow> Costmap2DROS \<Rightarrow> Path \<Rightarrow> nat \<Rightarrow> nat \<Rightarrow> bool list \<Rightarrow> bool list" where
  "findPathCosts_loop cv costmap_ros p path_segments_count idx valid =
     (if idx < path_segments_count
      then findPathCosts_loop cv costmap_ros p path_segments_count (idx + 1)
             (valid[idx := path_pt_valid cv costmap_ros p idx])
      else valid)"
  by pat_completeness auto
termination
  by (relation "measure (\<lambda>(cv, c, p, n, idx, valid). n - idx)") auto

declare findPathCosts_loop.simps [simp del]

text \<open>\<open>path_segments_count\<close> is a \<open>size_t\<close>: for an empty path it wraps to
  \<open>2^64 - 1\<close>, the loop is entered and its first iteration reads \<open>path.x(0)\<close>
  outside the array. The loop counter is an \<open>unsigned int\<close>; the loop above is the
  source's for counts that fit it.\<close>

definition findPathCosts :: "cost_values \<Rightarrow> Costmap2DROS \<Rightarrow> CriticData \<Rightarrow> error + CriticData" where
  "findPathCosts cv costmap_ros data =
     (let path_segments_count = nat ((int (length (path_x (path data))) - 1) mod 2 ^ 64)
      in if length (path_x (path data)) = 0 then Inl IndexOutOfRange
         else Inr (data\<lparr>path_pts_valid :=
                Some (findPathCosts_loop cv costmap_ros (path data) path_segments_count 0
                        (replicate path_segments_count False))\<rparr>))"

definition setPathCostsIfNotSet ::
  "cost_values \<Rightarrow> Costmap2DROS \<Rightarrow> CriticData \<Rightarrow> error + CriticData" where
  "setPathCostsIfNotSet cv costmap_ros data =
     (case path_pts_valid data of
        None \<Rightarrow> findPathCosts cv costmap_ros data
      | Some _ \<Rightarrow> Inr data)"

section \<open>Inputs for the worked examples\<close>

text \<open>A \<open>setRPY\<close> for rotations about the vertical axis; a critic context with the
  path (0,0), (1,1), (5,0) and two trajectories of two steps, the first ending at (1,1)
  and the second at (5,0); a two-by-two grid whose column 1 is lethal; and the cost
  values of the grid package.\<close>

definition yaw_quaternion :: "float \<Rightarrow> float \<Rightarrow> float \<Rightarrow> Quaternion" where
  "yaw_quaternion roll pitch yaw =
     \<lparr>ori_x = 0, ori_y = 0, ori_z = sin (yaw / 2), ori_w = cos (yaw / 2)\<rparr>"

definition example_context :: CriticData where
  "example_context =
     \<lparr>trajectories =
        \<lparr>traj_x = \<lparr>arr_rows = 2, arr_cols = 2, arr_data = [0, 0, 1, 5]\<rparr>,
         traj_y = \<lparr>arr_rows = 2, arr_cols = 2, arr_data = [0, 0, 1, 0]\<rparr>,
         traj_yaws = \<lparr>arr_rows = 2, arr_cols = 2, arr_data = [0, 0, 0, 0]\<rparr>\<rparr>,
      path = \<lparr>path_x = [0, 1, 5], path_y = [0, 1, 0], path_yaws = [1, 0, 0]\<rparr>,
      goal = createPose 7 7 0,
      furthest_reached_path_point = None,
      path_pts_valid = None\<rparr>"

definition small_grid :: Costmap2DROS where
  "small_grid =
     \<lparr>worldToMap = (\<lambda>x y. if 0 \<le> x \<and> x < 2 \<and> 0 \<le> y \<and> y < 2
                           then Some (nat \<lfloor>x\<rfloor>, nat \<lfloor>y\<rfloor>) else None),
      getCost = (\<lambda>mx my. if mx = 1 then 254 else 0),
      isTrackingUnknown = False\<rparr>"

definition nav2_cost_values :: cost_values where
  "nav2_cost_values =
     \<lparr>LETHAL_OBSTACLE = 254, INSCRIBED_INFLATED_OBSTACLE = 253, NO_INFORMATION = 255\<rparr>"

section \<open>nav2_behaviors::DriveOnHeading::onConfigure\<close>

text \<open>The node and its logger are external. A node is its table of parameters (all
  parameters here are doubles); the weak pointer \<open>node\<close> locks to no node once the node
  is gone. (Member names are the source's without the trailing underscore.) \<open>declare_parameter_if_not_declared\<close> declares a parameter with a default
  unless it exists, and \<open>get_parameter\<close> assigns the variable when the parameter is
  set. The logger is the list of messages written so far, each with its severity.\<close>

datatype severity = DEBUG | INFO | WARN | ERROR | FATAL

record Node =
  parameters :: "string \<rightharpoonup> float"

definition declare_parameter_if_not_declared :: "Node \<Rightarrow> string \<Rightarrow> float \<Rightarrow> Node" where
  "declare_parameter_if_not_declared node name default_value =
     (case parameters node name of
        None \<Rightarrow> node\<lparr>parameters := (parameters node)(name \<mapsto> default_value)\<rparr>
      | Some _ \<Rightarrow> node)"

definition get_parameter :: "Node \<Rightarrow> string \<Rightarrow> float \<Rightarrow> float" where
  "get_parameter node name var =
     (case parameters node name of None \<Rightarrow> var | Some v \<Rightarrow> v)"

text \<open>The value a parameter has once it was declared with a default: the value set on
  the node, or the default.\<close>

definition configured :: "Node \<Rightarrow> string \<Rightarrow> float \<Rightarrow> float" where
  "configured node name default_value =
     (case parameters node name of None \<Rightarrow> default_value | Some v \<Rightarrow> v)"

record DriveOnHeading =
  node :: "Node option"
  behavior_name :: string
  logger :: "(severity \<times> string) list"
  simulate_ahead_time :: float
  acceleration_limit :: float
  deceleration_limit :: float
  minimum_speed :: float

definition limits_message :: string where
  "limits_message =
     ''DriveOnHeading: acceleration_limit and deceleration_limit must be ''
     @ ''positive and negative respectively''"

definition onConfigure :: "DriveOnHeading \<Rightarrow> error + DriveOnHeading" where
  "onConfigure this =
     (case node this of
        None \<Rightarrow> Inl (runtime_error ''Failed to lock node'')
      | Some node0 \<Rightarrow>
          (let node1 = declare_parameter_if_not_declared node0 ''simulate_ahead_time'' 2.0;
               this1 = this\<lparr>simulate_ahead_time :=
                         get_parameter node1 ''simulate_ahead_time'' (simulate_ahead_time this)\<rparr>;
               node2 = declare_parameter_if_not_declared node1
                         (behavior_name this @ ''.acceleration_limit'') 2.5;
               node3 = declare_parameter_if_not_declared node2
                         (behavior_name this @ ''.deceleration_limit'') (- 2.5);
               node4 = declare_parameter_if_not_declared node3
                         (behavior_name this @ ''.minimum_speed'') 0.10;
               this2 = this1\<lparr>acceleration_limit :=
                         get_parameter node4 (behavior_name this @ ''.acceleration_limit'')
                           (acceleration_limit this1)\<rparr>;
               this3 = this2\<lparr>deceleration_limit :=
                         get_parameter node4 (behavior_name this @ ''.deceleration_limit'')
                           (deceleration_limit this2)\<rparr>;
               this4 = this3\<lparr>minimum_speed :=
                         get_parameter node4 (behavior_name this @ ''.minimum_speed'')
                           (minimum_speed this3),
                       node := Some node4\<rparr>
           in if acceleration_limit this4 \<le> 0.0 \<or> deceleration_limit this4 \<ge> 0.0
              then Inr (this4\<lparr>logger := logger this4 @ [(ERROR, limits_message)],
                              acceleration_limit := \<bar>acceleration_limit this4\<bar>,
                              deceleration_limit := - \<bar>deceleration_limit this4\<bar>\<rparr>)
              else Inr this4))"

definition backup_behavior :: DriveOnHeading where
  "backup_behavior =
     \<lparr>node = Some \<lparr>parameters = [''backup.acceleration_limit'' \<mapsto> - 1,
                                     ''backup.deceleration_limit'' \<mapsto> 2]\<rparr>,
      behavior_name = ''backup'',
      logger = [],
      simulate_ahead_time = 0,
      acceleration_limit = 0,
      deceleration_limit = 0,
      minimum_speed = 0\<rparr>"

text \<open>A behaviour whose node sets the acceleration limit to 0 and leaves the deceleration
  limit to its default.\<close>

definition stalled_behavior :: DriveOnHeading where
  "stalled_behavior =
     \<lparr>node = Some \<lparr>parameters = [''drive_on_heading.acceleration_limit'' \<mapsto> 0]\<rparr>,
      behavior_name = ''drive_on_heading'',
      logger = [],
      simulate_ahead_time = 0,
      acceleration_limit = 0,
      deceleration_limit = 0,
      minimum_speed = 0\<rparr>"

section \<open>mppi::utils::savitskyGolayFilter\<close>

text \<open>\<open>models::Control\<close> is one control vector, \<open>models::ControlSequence\<close> three arrays
  over the horizon, and the control history a \<open>std::array\<close> of four controls. Of the
  optimizer settings only \<open>shift_control_sequence\<close> is read.\<close>

record Control =
  control_vx :: float
  control_vy :: float
  control_wz :: float

record ControlSequence =
  vx :: "float list"
  vy :: "float list"
  wz :: "float list"

type_synonym ControlHistory = "Control \<times> Control \<times> Control \<times> Control"

record OptimizerSettings =
  shift_control_sequence :: bool

text \<open>The coefficients after \<open>filter /= 231.0f\<close>.\<close>

definition savitsky_golay_filter :: "float list" where
  "savitsky_golay_filter = map (\<lambda>c. c / 231) [- 21, 14, 39, 54, 59, 54, 39, 14, - 21]"

text \<open>\<open>(data * filter).eval().sum()\<close>\<close>

definition applyFilter :: "float list \<Rightarrow> float list \<Rightarrow> float" where
  "applyFilter filter_coeffs data = sum_list (map2 (\<lambda>d c. d * c) data filter_coeffs)"

text \<open>The loop of \<open>applyFilterOverAxis\<close>. The nine running points \<open>pt_m4\<close>, ...,
  \<open>pt_p4\<close> are the list \<open>pts\<close>; the eight assignments that move each point one
  place down and the refill of \<open>pt_p4\<close> are \<open>tl pts @ [_]\<close>. Reads and writes
  outside an array are errors.\<close>

function applyFilterOverAxis_loop ::
  "float list \<Rightarrow> nat \<Rightarrow> float list \<Rightarrow> nat \<Rightarrow> float list \<Rightarrow> float list
     \<Rightarrow> error + float list" where
  "applyFilterOverAxis_loop filter_coeffs num_sequences initial_sequence idx sequence pts =
     (if idx \<noteq> num_sequences
      then (if idx < length sequence
            then (let sequence' = sequence[idx := applyFilter filter_coeffs pts];
                      refill = (if idx + 5 < num_sequences then idx + 5 else num_sequences)
                  in if refill < length initial_sequence
                     then applyFilterOverAxis_loop filter_coeffs num_sequences initial_sequence
                            (idx + 1) sequence' (tl pts @ [initial_sequence ! refill])
                     else Inl IndexOutOfRange)
            else Inl IndexOutOfRange)
      else Inr sequence)"
  by pat_completeness auto
termination
  by (relation "measure (\<lambda>(f, n, init, idx, sequence, pts). length sequence - idx)") auto

declare applyFilterOverAxis_loop.simps [simp del]

definition applyFilterOverAxis ::
  "float list \<Rightarrow> nat \<Rightarrow> float list \<Rightarrow> float list \<Rightarrow> float \<Rightarrow> float \<Rightarrow> float \<Rightarrow> float
     \<Rightarrow> error + float list" where
  "applyFilterOverAxis filter_coeffs num_sequences sequence initial_sequence
       hist_0 hist_1 hist_2 hist_3 =
     (if 4 < length initial_sequence
      then applyFilterOverAxis_loop filter_coeffs num_sequences initial_sequence 0 sequence
             [hist_0, hist_1, hist_2, hist_3,
              initial_sequence ! 0, initial_sequence ! 1, initial_sequence ! 2,
              initial_sequence ! 3, initial_sequence ! 4]
      else Inl IndexOutOfRange)"

text \<open>\<open>num_sequences\<close> is an \<open>unsigned int\<close>: the size minus one modulo \<open>2^32\<close>.\<close>

definition savitskyGolayFilter ::
  "ControlSequence \<Rightarrow> ControlHistory \<Rightarrow> OptimizerSettings
     \<Rightarrow> error + ControlSequence \<times> ControlHistory" where
  "savitskyGolayFilter control_sequence control_history settings =
     (case control_history of (h0, h1, h2, h3) \<Rightarrow>
      (let filter_coeffs = savitsky_golay_filter;
           num_sequences = nat ((int (length (vx control_sequence)) - 1) mod 4294967296)
       in if num_sequences < 20 then Inr (control_sequence, control_history)
          else
            (let initial_control_sequence = control_sequence
             in case applyFilterOverAxis filter_coeffs num_sequences
                       (vx control_sequence) (vx initial_control_sequence)
                       (control_vx h0) (control_vx h1) (control_vx h2) (control_vx h3) of
                  Inl e \<Rightarrow> Inl e
                | Inr vx' \<Rightarrow>
               (case applyFilterOverAxis filter_coeffs num_sequences
                       (vy control_sequence) (vy initial_control_sequence)
                       (control_vy h0) (control_vy h1) (control_vy h2) (control_vy h3) of
                  Inl e \<Rightarrow> Inl e
                | Inr vy' \<Rightarrow>
               (case applyFilterOverAxis filter_coeffs num_sequences
                       (wz control_sequence) (wz initial_control_sequence)
                       (control_wz h0) (control_wz h1) (control_wz h2) (control_wz h3) of
                  Inl e \<Rightarrow> Inl e
                | Inr wz' \<Rightarrow>
                  (let offset = (if shift_control_sequence settings then 1 else 0 :: nat)
                   in if offset < length vx' \<and> offset < length vy' \<and> offset < length wz'
                      then Inr (control_sequence\<lparr>vx := vx', vy := vy', wz := wz'\<rparr>,
                                (h1, h2, h3,
                                 \<lparr>control_vx = vx' ! offset,
                                  control_vy = vy' ! offset,
                                  control_wz = wz' ! offset\<rparr>))
                      else Inl IndexOutOfRange))))))"

text \<open>The filter in the words of the specification: a control axis, continued to the left
  by the four history values and to the right by its last value, and the nine-point
  weighted sum centred at index \<open>i\<close> (position \<open>j\<close> of the continued signal is index
  \<open>j - 4\<close> of the axis).\<close>

definition continued :: "float list \<Rightarrow> float list \<Rightarrow> nat \<Rightarrow> float" where
  "continued hist xs j =
     (if j < 4 then hist ! j else xs ! min (j - 4) (length xs - 1))"

definition fir9 :: "float list \<Rightarrow> float list \<Rightarrow> nat \<Rightarrow> float" where
  "fir9 hist xs i = (\<Sum>k < 9. savitsky_golay_filter ! k * continued hist xs (i + k))"

text \<open>A control sequence that is 1 at the first step of \<open>vx\<close> and 0 elsewhere, over a
  horizon of \<open>n\<close> steps, and a history of zero controls.\<close>

definition spike :: "nat \<Rightarrow> ControlSequence" where
  "spike n = \<lparr>vx = 1 # replicate (n - 1) 0, vy = replicate n 0, wz = replicate n 0\<rparr>"

definition zero_control :: Control where
  "zero_control = \<lparr>control_vx = 0, control_vy = 0, control_wz = 0\<rparr>"

definition zero_history :: ControlHistory where
  "zero_history = (zero_control, zero_control, zero_control, zero_control)"

section \<open>mppi::utils::findPathFurthestReachedPoint\<close>

text \<open>\<open>std::numeric_limits<float>::max()\<close>, the largest finite single-precision value
  \<open>(2^24 - 1) * 2^104\<close>.\<close>

definition FLT_MAX :: float where
  "FLT_MAX = 340282346638528859811704183484516925440"

text \<open>Coefficient \<open>(i, j)\<close> of \<open>dists = dx * dx + dy * dy\<close>: the squared distance
  between path point \<open>j\<close> and the position of trajectory \<open>i\<close> in the last column
  \<open>traj_cols - 1\<close>.\<close>

definition dists :: "CriticData \<Rightarrow> nat \<Rightarrow> nat \<Rightarrow> float" where
  "dists data i j =
     (let traj_cols = arr_cols (traj_x (trajectories data));
          traj_x_i = coeff (traj_x (trajectories data)) i (traj_cols - 1);
          traj_y_i = coeff (traj_y (trajectories data)) i (traj_cols - 1);
          dx = path_x (path data) ! j - traj_x_i;
          dy = path_y (path data) ! j - traj_y_i
      in dx * dx + dy * dy)"

text \<open>The inner loop \<open>for (j = max_id_by_trajectories; j != n_cols; j++)\<close> over one row
  \<open>row_dists\<close> of \<open>dists\<close>. The test is \<open>!=\<close>; a \<open>j\<close> past \<open>n_cols\<close> would
  read outside the row.\<close>

function nearest_loop :: "(nat \<Rightarrow> float) \<Rightarrow> nat \<Rightarrow> nat \<Rightarrow> float \<Rightarrow> nat \<Rightarrow> error + nat" where
  "nearest_loop row_dists n_cols j min_distance_by_path min_id_by_path =
     (if j \<noteq> n_cols
      then (if j < n_cols
            then (let cur_dist = row_dists j
                  in if cur_dist < min_distance_by_path
                     then nearest_loop row_dists n_cols (j + 1) cur_dist j
                     else nearest_loop row_dists n_cols (j + 1)
                            min_distance_by_path min_id_by_path)
            else Inl IndexOutOfRange)
      else Inr min_id_by_path)"
  by pat_completeness auto
termination
  by (relation "measure (\<lambda>(d, n, j, md, mi). n - j)") auto

declare nearest_loop.simps [simp del]

text \<open>The outer loop \<open>for (i = 0; i != n_rows; i++)\<close>, with
  \<open>max_id_by_trajectories\<close> as its state.\<close>

function furthest_loop ::
  "(nat \<Rightarrow> nat \<Rightarrow> float) \<Rightarrow> nat \<Rightarrow> nat \<Rightarrow> nat \<Rightarrow> nat \<Rightarrow> error + nat" where
  "furthest_loop d n_rows n_cols i max_id_by_trajectories =
     (if i \<noteq> n_rows
      then (if i < n_rows
            then (case nearest_loop (d i) n_cols max_id_by_trajectories FLT_MAX 0 of
                    Inl e \<Rightarrow> Inl e
                  | Inr min_id_by_path \<Rightarrow>
                      furthest_loop d n_rows n_cols (i + 1)
                        (max max_id_by_trajectories min_id_by_path))
            else Inl IndexOutOfRange)
      else Inr max_id_by_trajectories)"
  by pat_completeness auto
termination
  by (relation "measure (\<lambda>(d, n_rows, n_cols, i, m). n_rows - i)") auto

declare furthest_loop.simps [simp del]

text \<open>With no column, \<open>col(traj_cols - 1)\<close> is outside the array.\<close>

definition findPathFurthestReachedPoint :: "CriticData \<Rightarrow> error + nat" where
  "findPathFurthestReachedPoint data =
     (let traj_cols = arr_cols (traj_x (trajectories data))
      in if traj_cols = 0 then Inl IndexOutOfRange
         else (let n_rows = arr_rows (traj_x (trajectories data));
                   n_cols = length (path_x (path data))
               in furthest_loop (dists data) n_rows n_cols 0 0))"

definition setPathFurthestPointIfNotSet :: "CriticData \<Rightarrow> error + CriticData" where
  "setPathFurthestPointIfNotSet data =
     (case furthest_reached_path_point data of
        None \<Rightarrow>
          (case findPathFurthestReachedPoint data of
             Inl e \<Rightarrow> Inl e
           | Inr p \<Rightarrow> Inr (data\<lparr>furthest_reached_path_point := Some p\<rparr>))
      | Some _ \<Rightarrow> Inr data)"

text \<open>The cursor of row \<open>i\<close> is the value of \<open>max_id_by_trajectories\<close> when the
  outer loop reaches row \<open>i\<close>, that is, after the loop has run over the rows before
  \<open>i\<close>; the nearest index of row \<open>i\<close> is what the inner loop leaves in
  \<open>min_id_by_path\<close> when started at cursor \<open>c\<close>.\<close>

definition row_cursor :: "CriticData \<Rightarrow> nat \<Rightarrow> error + nat" where
  "row_cursor data i = furthest_loop (dists data) i (length (path_x (path data))) 0 0"

definition row_nearest :: "CriticData \<Rightarrow> nat \<Rightarrow> nat \<Rightarrow> error + nat" where
  "row_nearest data i c =
     nearest_loop (dists data i) (length (path_x (path data))) c FLT_MAX 0"

section \<open>mppi::utils::shiftColumnsByOnePlace\<close>

text \<open>Pointers into the array are offsets from \<open>e.data()\<close>, as integers since the
  pointer arithmetic may leave the block. \<open>std::copy(first, first + span, dest)\<close> on
  the block \<open>mem\<close>; touching an offset outside the block is an error. (Source and
  destination never overlap here: they are neighbouring spans.)\<close>

definition copy_span :: "float list \<Rightarrow> int \<Rightarrow> nat \<Rightarrow> int \<Rightarrow> error + float list" where
  "copy_span mem first span_n dest =
     (if span_n = 0 then Inr mem
      else if 0 \<le> first \<and> first + int span_n \<le> int (length mem)
              \<and> 0 \<le> dest \<and> dest + int span_n \<le> int (length mem)
      then Inr (take (nat dest) mem @ take span_n (drop (nat first) mem)
                @ drop (nat dest + span_n) mem)
      else Inl IndexOutOfRange)"

text \<open>The \<open>while (start_ptr != end_ptr)\<close> loop together with the statement after it,
  which repeats the loop body once more at the final \<open>start_ptr\<close>. In the first branch
  of the source the body moves one scalar, \<open>*(start_ptr + direction) = *start_ptr\<close>,
  which is the copy of a span of 1; in the second it copies \<open>span\<close> scalars. The loop
  ends only when \<open>start_ptr\<close> meets \<open>end_ptr\<close>, so the result is optional:
  \<open>None\<close> stands for a loop that never returns.\<close>

partial_function (option) shift_loop ::
  "int \<Rightarrow> nat \<Rightarrow> int \<Rightarrow> int \<Rightarrow> float list \<Rightarrow> (error + float list) option" where
  "shift_loop direction span_n end_ptr start_ptr mem =
     (if start_ptr \<noteq> end_ptr
      then (case copy_span mem start_ptr span_n (start_ptr + direction * int span_n) of
              Inl e \<Rightarrow> Some (Inl e)
            | Inr mem' \<Rightarrow>
                shift_loop direction span_n end_ptr (start_ptr - direction * int span_n) mem')
      else Some (copy_span mem start_ptr span_n (start_ptr + direction * int span_n)))"

definition shiftColumnsByOnePlace :: "ArrayXXf \<Rightarrow> int \<Rightarrow> (error + ArrayXXf) option" where
  "shiftColumnsByOnePlace e direction =
     (let size = int (arr_rows e * arr_cols e);
          rows = int (arr_rows e)
      in if size = 1 then Some (Inr e)
         else if \<bar>direction\<bar> \<noteq> 1
         then Some (Inl (logic_error ''Invalid direction, only 1 and -1 are valid values.''))
         else if (arr_cols e = 1 \<or> arr_rows e = 1) \<and> size > 1
         then (let start_ptr = (if direction = 1 then size - 2 else 1);
                   end_ptr = (if direction = 1 then 0 else size - 1)
               in map_option (map_sum id (\<lambda>mem. e\<lparr>arr_data := mem\<rparr>))
                    (shift_loop direction 1 end_ptr start_ptr (arr_data e)))
         else (let start_ptr = (if direction = 1 then size - 2 * rows else rows);
                   end_ptr = (if direction = 1 then 0 else size - rows);
                   span_n = arr_rows e
               in map_option (map_sum id (\<lambda>mem. e\<lparr>arr_data := mem\<rparr>))
                    (shift_loop direction span_n end_ptr start_ptr (arr_data e))))"

text \<open>A column of two entries, 1 above 2, and the two-by-two array with columns (1, 2)
  and (3, 4).\<close>

definition column_1_2 :: ArrayXXf where
  "column_1_2 = \<lparr>arr_rows = 2, arr_cols = 1, arr_data = [1, 2]\<rparr>"

definition square_1_2_3_4 :: ArrayXXf where
  "square_1_2_3_4 = \<lparr>arr_rows = 2, arr_cols = 2, arr_data = [1, 2, 3, 4]\<rparr>"

section \<open>Theorems\<close>

text \<open>
  C6. Clamping is idempotent and lands in the range: for all bounds \<open>l \<le> u\<close> and every
  input \<open>x\<close>, clamping the clamped value again gives the same value, and the clamped
  value lies between \<open>l\<close> and \<open>u\<close>.
\<close>

theorem clamp_idempotent_in_range:
  assumes "l \<le> u"
  shows "clamp l u (clamp l u x) = clamp l u x \<and> l \<le> clamp l u x \<and> clamp l u x \<le> u"
  using assms by (simp add: clamp_def std_min_def std_max_def)

theorem clamp_idempotent_in_range_witness:
  "(0::real) \<le> 1 \<and> clamp 0 1 (clamp 0 1 3) = clamp 0 1 3 \<and> clamp 0 1 3 = 1
     \<and> 0 \<le> clamp 0 1 3 \<and> clamp 0 1 3 \<le> 1"
proof -
  have h: "(0::real) \<le> 1" by simp
  show ?thesis
    using h clamp_idempotent_in_range [OF h, of 3]
    by (simp add: clamp_def std_min_def std_max_def)
qed

subsection \<open>Path inversion\<close>

lemma inversion_loop_le: "findFirstPathInversion_loop p i \<le> length p"
proof (induction p i rule: findFirstPathInversion_loop.induct)
  case (1 poses idx)
  show ?case
  proof (cases "idx < length poses - 1")
    case True
    then show ?thesis
      using "1.IH" by (subst findFirstPathInversion_loop.simps) auto
  next
    case False
    then show ?thesis by (subst findFirstPathInversion_loop.simps) simp
  qed
qed

lemma inversion_loop_found:
  "findFirstPathInversion_loop p i < length p \<Longrightarrow>
     i < findFirstPathInversion_loop p i
     \<and> dot_product_at p (findFirstPathInversion_loop p i - 1) < 0
     \<and> (\<forall>k. i \<le> k \<and> k < findFirstPathInversion_loop p i - 1 \<longrightarrow> \<not> dot_product_at p k < 0)"
proof (induction p i rule: findFirstPathInversion_loop.induct)
  case (1 poses idx)
  show ?case
  proof (cases "idx < length poses - 1")
    case False
    then have "findFirstPathInversion_loop poses idx = length poses"
      by (subst findFirstPathInversion_loop.simps) simp
    with "1.prems" show ?thesis by simp
  next
    case True
    show ?thesis
    proof (cases "dot_product_at poses idx < 0")
      case neg: True
      with True have "findFirstPathInversion_loop poses idx = idx + 1"
        by (subst findFirstPathInversion_loop.simps) simp
      with neg show ?thesis by simp
    next
      case nonneg: False
      with True have eq: "findFirstPathInversion_loop poses idx
                          = findFirstPathInversion_loop poses (idx + 1)"
        by (subst findFirstPathInversion_loop.simps) simp
      with "1.prems" have "findFirstPathInversion_loop poses (idx + 1) < length poses"
        by simp
      from "1.IH" [OF True nonneg this]
      have ih: "idx + 1 < findFirstPathInversion_loop poses (idx + 1)"
        "dot_product_at poses (findFirstPathInversion_loop poses (idx + 1) - 1) < 0"
        "\<And>k. idx + 1 \<le> k \<Longrightarrow> k < findFirstPathInversion_loop poses (idx + 1) - 1
               \<Longrightarrow> \<not> dot_product_at poses k < 0"
        by auto
      have "\<not> dot_product_at poses k < 0"
        if "idx \<le> k" "k < findFirstPathInversion_loop poses (idx + 1) - 1" for k
      proof (cases "k = idx")
        case True
        with nonneg show ?thesis by simp
      next
        case False
        with that have "idx + 1 \<le> k" by simp
        with ih(3) that show ?thesis by blast
      qed
      with ih(1,2) show ?thesis
        unfolding eq by auto
    qed
  qed
qed

lemma inversion_loop_none:
  "findFirstPathInversion_loop p i = length p \<Longrightarrow>
     \<forall>k. i \<le> k \<and> k + 1 < length p \<longrightarrow> \<not> dot_product_at p k < 0"
proof (induction p i rule: findFirstPathInversion_loop.induct)
  case (1 poses idx)
  show ?case
  proof (cases "idx < length poses - 1")
    case False
    then show ?thesis by auto
  next
    case True
    show ?thesis
    proof (cases "dot_product_at poses idx < 0")
      case neg: True
      with True have "findFirstPathInversion_loop poses idx = idx + 1"
        by (subst findFirstPathInversion_loop.simps) simp
      with "1.prems" True show ?thesis by simp
    next
      case nonneg: False
      with True have eq: "findFirstPathInversion_loop poses idx
                          = findFirstPathInversion_loop poses (idx + 1)"
        by (subst findFirstPathInversion_loop.simps) simp
      with "1.prems" have "findFirstPathInversion_loop poses (idx + 1) = length poses"
        by simp
      from "1.IH" [OF True nonneg this]
      have ih: "\<And>k. idx + 1 \<le> k \<Longrightarrow> k + 1 < length poses
               \<Longrightarrow> \<not> dot_product_at poses k < 0"
        by auto
      have "\<not> dot_product_at poses k < 0" if "idx \<le> k" "k + 1 < length poses" for k
      proof (cases "k = idx")
        case True
        with nonneg show ?thesis by simp
      next
        case False
        with that have "idx + 1 \<le> k" by simp
        with ih that show ?thesis by blast
      qed
      then show ?thesis by auto
    qed
  qed
qed

lemma findFirstPathInversion_le: "findFirstPathInversion p \<le> length p"
  by (simp add: findFirstPathInversion_def inversion_loop_le)

lemma there_and_back_inversion: "findFirstPathInversion there_and_back = 3"
  by (simp add: findFirstPathInversion_def there_and_back_def createPose_def
      findFirstPathInversion_loop.simps dot_product_at_def)

lemma there_and_back_length: "length there_and_back = 5"
  by (simp add: there_and_back_def)

lemma first_inversion_by_helper:
  "(findFirstPathInversion p < length p \<longrightarrow>
      2 \<le> findFirstPathInversion p
      \<and> dot_product_at p (findFirstPathInversion p - 1) < 0
      \<and> (\<forall>k. 1 \<le> k \<and> k < findFirstPathInversion p - 1 \<longrightarrow> \<not> dot_product_at p k < 0)
      \<and> removePosesAfterFirstInversion p
          = (take (findFirstPathInversion p) p, findFirstPathInversion p))
   \<and> (findFirstPathInversion p = length p \<longrightarrow>
        (\<forall>k. 1 \<le> k \<and> k + 1 < length p \<longrightarrow> \<not> dot_product_at p k < 0)
        \<and> removePosesAfterFirstInversion p = (p, 0))
   \<and> findFirstPathInversion p \<le> length p
   \<and> findFirstPathInversion there_and_back = 3
   \<and> length (fst (removePosesAfterFirstInversion there_and_back)) = 3"
proof (intro conjI impI)
  assume found: "findFirstPathInversion p < length p"
  then have long: "\<not> length p < 3" and
    loop: "findFirstPathInversion p = findFirstPathInversion_loop p 1"
    by (auto simp: findFirstPathInversion_def split: if_splits)
  from found have "findFirstPathInversion_loop p 1 < length p"
    by (simp add: loop)
  from inversion_loop_found [OF this]
  show "2 \<le> findFirstPathInversion p"
    and "dot_product_at p (findFirstPathInversion p - 1) < 0"
    and "\<forall>k. 1 \<le> k \<and> k < findFirstPathInversion p - 1 \<longrightarrow> \<not> dot_product_at p k < 0"
    by (auto simp: loop)
  from found show "removePosesAfterFirstInversion p
      = (take (findFirstPathInversion p) p, findFirstPathInversion p)"
    by (simp add: removePosesAfterFirstInversion_def Let_def)
next
  assume none: "findFirstPathInversion p = length p"
  show "\<forall>k. 1 \<le> k \<and> k + 1 < length p \<longrightarrow> \<not> dot_product_at p k < 0"
  proof (cases "length p < 3")
    case True
    then show ?thesis by auto
  next
    case False
    with none have "findFirstPathInversion_loop p 1 = length p"
      by (simp add: findFirstPathInversion_def)
    from inversion_loop_none [OF this] show ?thesis by simp
  qed
  from none show "removePosesAfterFirstInversion p = (p, 0)"
    by (simp add: removePosesAfterFirstInversion_def Let_def)
next
  show "findFirstPathInversion p \<le> length p"
    by (rule findFirstPathInversion_le)
  show "findFirstPathInversion there_and_back = 3"
    by (rule there_and_back_inversion)
  show "length (fst (removePosesAfterFirstInversion there_and_back)) = 3"
    by (simp add: removePosesAfterFirstInversion_def Let_def there_and_back_inversion
        there_and_back_length)
qed

text \<open>
  C1. Write \<open>x k\<close>, \<open>y k\<close> for the coordinates of pose \<open>k\<close> and \<open>dot k\<close> for the
  dot product of the direction vector from pose \<open>k - 1\<close> to pose \<open>k\<close> with the one
  from pose \<open>k\<close> to pose \<open>k + 1\<close>. Inversion detection scans the middle indices
  \<open>k = 1, 2, ...\<close> and stops at the first with \<open>dot k < 0\<close>; it returns the index
  after it, or the number of poses when there is none. Truncation keeps exactly the
  poses before the returned index. On the path (0,0), (1,0), (2,0), (1,0), (0,0)
  detection returns 3 and truncation leaves 3 poses.
\<close>

theorem inversion_detection_and_truncation:
  fixes p :: nav_path
  defines "x \<equiv> \<lambda>k. pos_x (position (p ! k))"
    and "y \<equiv> \<lambda>k. pos_y (position (p ! k))"
  defines "dot \<equiv> \<lambda>k. (x k - x (k - 1)) * (x (k + 1) - x k)
                       + (y k - y (k - 1)) * (y (k + 1) - y k)"
  shows "(findFirstPathInversion p < length p \<longrightarrow>
      2 \<le> findFirstPathInversion p
      \<and> dot (findFirstPathInversion p - 1) < 0
      \<and> (\<forall>k. 1 \<le> k \<and> k < findFirstPathInversion p - 1 \<longrightarrow> \<not> dot k < 0)
      \<and> removePosesAfterFirstInversion p
          = (take (findFirstPathInversion p) p, findFirstPathInversion p))
   \<and> (findFirstPathInversion p = length p \<longrightarrow>
        (\<forall>k. 1 \<le> k \<and> k + 1 < length p \<longrightarrow> \<not> dot k < 0)
        \<and> removePosesAfterFirstInversion p = (p, 0))
   \<and> findFirstPathInversion p \<le> length p
   \<and> findFirstPathInversion there_and_back = 3
   \<and> length (fst (removePosesAfterFirstInversion there_and_back)) = 3"
proof -
  have "dot = dot_product_at p"
    by (intro ext) (simp add: dot_def x_def y_def dot_product_at_def Let_def)
  then show ?thesis
    using first_inversion_by_helper [of p] by simp
qed

theorem inversion_detection_and_truncation_witness:
  "findFirstPathInversion there_and_back < length there_and_back
   \<and> (pos_x (position (there_and_back ! 2)) - pos_x (position (there_and_back ! 1)))
       * (pos_x (position (there_and_back ! 3)) - pos_x (position (there_and_back ! 2)))
     + (pos_y (position (there_and_back ! 2)) - pos_y (position (there_and_back ! 1)))
       * (pos_y (position (there_and_back ! 3)) - pos_y (position (there_and_back ! 2)))
     < 0
   \<and> removePosesAfterFirstInversion there_and_back = (take 3 there_and_back, 3)"
proof -
  have found: "findFirstPathInversion there_and_back < length there_and_back"
    by (simp add: there_and_back_inversion there_and_back_length)
  have "(3::nat) - 1 = 2" "(2::nat) - 1 = 1" "(2::nat) + 1 = 3" by simp_all
  with found inversion_detection_and_truncation [of there_and_back]
  show ?thesis
    by (simp add: there_and_back_inversion)
qed

text \<open>
  C4, as stated, fails: truncation assigns the truncated copy back to the path object it
  was given. On the path (0,0), (1,0), (2,0), (1,0), (0,0) the object passed in holds a
  different path after the call.
\<close>

theorem original_path_mutated_counterexample:
  "fst (removePosesAfterFirstInversion there_and_back) \<noteq> there_and_back"
proof
  assume "fst (removePosesAfterFirstInversion there_and_back) = there_and_back"
  then have "length (fst (removePosesAfterFirstInversion there_and_back))
             = length there_and_back"
    by simp
  then show False
    by (simp add: removePosesAfterFirstInversion_def Let_def there_and_back_inversion
        there_and_back_length)
qed

text \<open>
  C4, amended. Detection only reads the path. Truncation works on a local copy and then
  assigns it to the path object passed by reference: after the call that object holds the
  poses before the detected index, which is a proper prefix when an inversion was found
  and the unchanged path when none was.
\<close>

theorem truncation_overwrites_passed_path:
  "fst (removePosesAfterFirstInversion p) = take (findFirstPathInversion p) p
   \<and> (findFirstPathInversion p = length p \<longrightarrow> fst (removePosesAfterFirstInversion p) = p)
   \<and> (findFirstPathInversion p < length p \<longrightarrow>
        length (fst (removePosesAfterFirstInversion p)) < length p)"
  by (simp add: removePosesAfterFirstInversion_def Let_def)

theorem truncation_overwrites_passed_path_witness:
  "findFirstPathInversion there_and_back < length there_and_back
   \<and> length (fst (removePosesAfterFirstInversion there_and_back)) < length there_and_back
   \<and> findFirstPathInversion [createPose 0 0 0] = length [createPose 0 0 0]
   \<and> fst (removePosesAfterFirstInversion [createPose 0 0 0]) = [createPose 0 0 0]"
proof -
  have found: "findFirstPathInversion there_and_back < length there_and_back"
    by (simp add: there_and_back_inversion there_and_back_length)
  have none: "findFirstPathInversion [createPose 0 0 0] = length [createPose 0 0 0]"
    by (simp add: findFirstPathInversion_def)
  from found none truncation_overwrites_passed_path [of there_and_back]
    truncation_overwrites_passed_path [of "[createPose 0 0 0]"]
  show ?thesis by simp
qed

subsection \<open>Critic goal, goal tolerance, path validity\<close>

lemma findPathCosts_loop_length:
  "length (findPathCosts_loop cv c p n i valid) = length valid"
proof (induction cv c p n i valid rule: findPathCosts_loop.induct)
  case (1 cv c p n idx valid)
  show ?case
  proof (cases "idx < n")
    case True
    with "1.IH" show ?thesis
      by (subst findPathCosts_loop.simps) simp
  next
    case False
    then show ?thesis by (subst findPathCosts_loop.simps) simp
  qed
qed

lemma findPathCosts_loop_nth:
  "n \<le> length valid \<Longrightarrow> k < length valid \<Longrightarrow>
     findPathCosts_loop cv c p n i valid ! k
       = (if i \<le> k \<and> k < n then path_pt_valid cv c p k else valid ! k)"
proof (induction cv c p n i valid rule: findPathCosts_loop.induct)
  case (1 cv c p n idx valid)
  show ?case
  proof (cases "idx < n")
    case False
    then show ?thesis by (subst findPathCosts_loop.simps) auto
  next
    case True
    have "findPathCosts_loop cv c p n idx valid ! k
          = findPathCosts_loop cv c p n (idx + 1) (valid[idx := path_pt_valid cv c p idx]) ! k"
      using True by (subst findPathCosts_loop.simps) simp
    also have "\<dots> = (if idx + 1 \<le> k \<and> k < n then path_pt_valid cv c p k
                     else (valid[idx := path_pt_valid cv c p idx]) ! k)"
      using "1.IH" [OF True] "1.prems" by simp
    also have "\<dots> = (if idx \<le> k \<and> k < n then path_pt_valid cv c p k else valid ! k)"
      using True "1.prems" by (auto simp: nth_list_update)
    finally show ?thesis .
  qed
qed

lemma path_pt_valid_iff:
  "path_pt_valid cv c p i = False \<longleftrightarrow>
     (case worldToMap c (path_x p ! i) (path_y p ! i) of
        None \<Rightarrow> True
      | Some (mx, my) \<Rightarrow>
          getCost c mx my = LETHAL_OBSTACLE cv
          \<or> getCost c mx my = INSCRIBED_INFLATED_OBSTACLE cv
          \<or> (getCost c mx my = NO_INFORMATION cv \<and> \<not> isTrackingUnknown c))"
  by (auto simp: path_pt_valid_def Let_def split: option.splits)


text \<open>
  C7. For a critic context whose path is not empty (its three arrays of one size), the
  goal handed to a critic that enforces path inversion is the last path pose: the last
  \<open>x\<close> and \<open>y\<close> as position and the quaternion of the last yaw as orientation. A
  critic that does not enforce it gets the goal pose itself.
\<close>

theorem critic_goal:
  assumes "path_x (path data) \<noteq> []"
    and "length (path_x (path data)) \<le> 4294967296"
    and "length (path_y (path data)) = length (path_x (path data))"
    and "length (path_yaws (path data)) = length (path_x (path data))"
  shows "getCriticGoal setRPY data True
           = Inr \<lparr>position = \<lparr>pos_x = last (path_x (path data)),
                                pos_y = last (path_y (path data)),
                                pos_z = 0\<rparr>,
                   orientation = setRPY 0 0 (last (path_yaws (path data)))\<rparr>
         \<and> getCriticGoal setRPY data False = Inr (goal data)"
proof -
  let ?n = "length (path_x (path data))"
  from assms(1) have pos: "0 < ?n" by simp
  with assms(2) have idx: "nat ((int ?n - 1) mod 4294967296) = ?n - 1"
    by (simp add: nat_diff_distrib')
  from assms have ne: "path_y (path data) \<noteq> []" "path_yaws (path data) \<noteq> []"
    by auto
  show ?thesis
    using pos assms(3,4) assms(1) ne
    by (simp add: getCriticGoal_def getLastPathPose_def idx Let_def last_conv_nth)
qed

theorem critic_goal_witness:
  "path_x (path example_context) \<noteq> []
   \<and> getCriticGoal yaw_quaternion example_context True
       = Inr \<lparr>position = \<lparr>pos_x = 5, pos_y = 0, pos_z = 0\<rparr>,
               orientation = \<lparr>ori_x = 0, ori_y = 0, ori_z = 0, ori_w = 1\<rparr>\<rparr>
   \<and> getCriticGoal yaw_quaternion example_context False = Inr (createPose 7 7 0)"
  using critic_goal [of example_context yaw_quaternion]
  by (simp add: example_context_def yaw_quaternion_def)




text \<open>
  C5. For a path of at least one point and any cost grid, the computed mask has one
  entry per segment (path length minus one); entry \<open>i\<close> is false exactly when point
  \<open>i\<close> lies outside the grid or its cell is lethal, inscribed-inflated, or unknown
  while unknown space is not tracked. When the cache is not yet set,
  \<open>setPathCostsIfNotSet\<close> stores this mask.
\<close>

theorem path_validity_mask:
  assumes "path_x (path data) \<noteq> []"
    and "length (path_x (path data)) \<le> 4294967296"
  shows "\<exists>valid.
           findPathCosts cv c data = Inr (data\<lparr>path_pts_valid := Some valid\<rparr>)
           \<and> length valid = length (path_x (path data)) - 1
           \<and> (\<forall>i < length valid.
                (valid ! i = False) =
                (case worldToMap c (path_x (path data) ! i) (path_y (path data) ! i) of
                   None \<Rightarrow> True
                 | Some (mx, my) \<Rightarrow>
                     getCost c mx my = LETHAL_OBSTACLE cv
                     \<or> getCost c mx my = INSCRIBED_INFLATED_OBSTACLE cv
                     \<or> (getCost c mx my = NO_INFORMATION cv \<and> \<not> isTrackingUnknown c)))
           \<and> (path_pts_valid data = None \<longrightarrow>
                setPathCostsIfNotSet cv c data = Inr (data\<lparr>path_pts_valid := Some valid\<rparr>))"
proof -
  let ?n = "length (path_x (path data))"
  let ?valid = "findPathCosts_loop cv c (path data) (?n - 1) 0 (replicate (?n - 1) False)"
  from assms have "0 \<le> int ?n - 1" "int ?n - 1 < 2 ^ 64"
    by simp_all
  then have "(int ?n - 1) mod 2 ^ 64 = int ?n - 1"
    by (rule mod_pos_pos_trivial)
  then have cnt: "nat ((int ?n - 1) mod 2 ^ 64) = ?n - 1"
    by simp
  have res: "findPathCosts cv c data = Inr (data\<lparr>path_pts_valid := Some ?valid\<rparr>)"
    unfolding findPathCosts_def Let_def cnt using assms(1) by simp
  have len: "length ?valid = ?n - 1"
    by (simp add: findPathCosts_loop_length)
  have nth: "?valid ! i = path_pt_valid cv c (path data) i" if "i < ?n - 1" for i
    using that by (simp add: findPathCosts_loop_nth)
  have mask: "\<forall>i < length ?valid.
          (?valid ! i = False) =
          (case worldToMap c (path_x (path data) ! i) (path_y (path data) ! i) of
             None \<Rightarrow> True
           | Some (mx, my) \<Rightarrow>
               getCost c mx my = LETHAL_OBSTACLE cv
               \<or> getCost c mx my = INSCRIBED_INFLATED_OBSTACLE cv
               \<or> (getCost c mx my = NO_INFORMATION cv \<and> \<not> isTrackingUnknown c))"
  proof (intro allI impI)
    fix i
    assume "i < length ?valid"
    with len have "i < ?n - 1" by simp
    from nth [OF this] path_pt_valid_iff [of cv c "path data" i]
    show "(?valid ! i = False) =
          (case worldToMap c (path_x (path data) ! i) (path_y (path data) ! i) of
             None \<Rightarrow> True
           | Some (mx, my) \<Rightarrow>
               getCost c mx my = LETHAL_OBSTACLE cv
               \<or> getCost c mx my = INSCRIBED_INFLATED_OBSTACLE cv
               \<or> (getCost c mx my = NO_INFORMATION cv \<and> \<not> isTrackingUnknown c))"
      by simp
  qed
  have unset: "path_pts_valid data = None \<longrightarrow>
      setPathCostsIfNotSet cv c data = Inr (data\<lparr>path_pts_valid := Some ?valid\<rparr>)"
    using res by (simp add: setPathCostsIfNotSet_def)
  show ?thesis
    by (rule exI [of _ ?valid]) (intro conjI res len mask unset)
qed

theorem path_validity_mask_witness:
  "path_x (path example_context) \<noteq> []
   \<and> findPathCosts nav2_cost_values small_grid example_context
       = Inr (example_context\<lparr>path_pts_valid := Some [True, False]\<rparr>)"
proof -
  have a: "path_x (path example_context) \<noteq> []"
    and b: "length (path_x (path example_context)) \<le> 4294967296"
    by (simp_all add: example_context_def)
  from path_validity_mask [OF a b, of nav2_cost_values small_grid]
  obtain valid where
    v: "findPathCosts nav2_cost_values small_grid example_context
          = Inr (example_context\<lparr>path_pts_valid := Some valid\<rparr>)"
    and l: "length valid = length (path_x (path example_context)) - 1"
    and e: "\<forall>i < length valid.
              (valid ! i = False) =
              (case worldToMap small_grid (path_x (path example_context) ! i)
                      (path_y (path example_context) ! i) of
                 None \<Rightarrow> True
               | Some (mx, my) \<Rightarrow>
                   getCost small_grid mx my = LETHAL_OBSTACLE nav2_cost_values
                   \<or> getCost small_grid mx my = INSCRIBED_INFLATED_OBSTACLE nav2_cost_values
                   \<or> (getCost small_grid mx my = NO_INFORMATION nav2_cost_values
                       \<and> \<not> isTrackingUnknown small_grid))"
    by blast
  from l have l2: "length valid = 2" by (simp add: example_context_def)
  from e l2 have "(valid ! 0 = False) = False" "(valid ! 1 = False) = True"
    by (simp_all add: example_context_def small_grid_def nav2_cost_values_def)
  with l2 have "valid = [True, False]"
    by (cases valid; cases "tl valid"; cases "tl (tl valid)") auto
  with v a show ?thesis by simp
qed

subsection \<open>Configuration of the drive-on-heading behaviour\<close>

lemma parameter_names_distinct:
  "b @ ''.acceleration_limit'' \<noteq> ''simulate_ahead_time''"
  "b @ ''.deceleration_limit'' \<noteq> ''simulate_ahead_time''"
  "b @ ''.acceleration_limit'' \<noteq> b @ ''.deceleration_limit''"
  "b @ ''.acceleration_limit'' \<noteq> b @ ''.minimum_speed''"
  "b @ ''.deceleration_limit'' \<noteq> b @ ''.minimum_speed''"
proof -
  have "last (b @ ''.acceleration_limit'') \<noteq> last ''simulate_ahead_time''"
    by simp
  then show "b @ ''.acceleration_limit'' \<noteq> ''simulate_ahead_time''"
    by metis
  have "last (b @ ''.deceleration_limit'') \<noteq> last ''simulate_ahead_time''"
    by simp
  then show "b @ ''.deceleration_limit'' \<noteq> ''simulate_ahead_time''"
    by metis
qed simp_all

lemma get_after_declare:
  "get_parameter (declare_parameter_if_not_declared n name d) name' v
     = (if name' = name then configured n name d else get_parameter n name' v)"
  by (simp add: get_parameter_def declare_parameter_if_not_declared_def configured_def
      split: option.splits)

lemma configured_after_declare:
  "name' \<noteq> name \<Longrightarrow>
     configured (declare_parameter_if_not_declared n name d) name' d' = configured n name' d'"
  by (simp add: declare_parameter_if_not_declared_def configured_def split: option.splits)

lemma onConfigure_limits:
  assumes "node s = Some n"
  shows "\<exists>s'. onConfigure s = Inr s'"
    and "onConfigure s = Inr s' \<Longrightarrow>
           (let acc = configured n (behavior_name s @ ''.acceleration_limit'') 2.5;
                dec = configured n (behavior_name s @ ''.deceleration_limit'') (- 2.5)
            in if acc \<le> 0 \<or> 0 \<le> dec
               then acceleration_limit s' = \<bar>acc\<bar> \<and> deceleration_limit s' = - \<bar>dec\<bar>
                    \<and> logger s' = logger s @ [(ERROR, limits_message)]
               else acceleration_limit s' = acc \<and> deceleration_limit s' = dec
                    \<and> logger s' = logger s)"
proof -
  show "\<exists>s'. onConfigure s = Inr s'"
    using assms by (simp add: onConfigure_def Let_def)
next
  assume "onConfigure s = Inr s'"
  then show "(let acc = configured n (behavior_name s @ ''.acceleration_limit'') 2.5;
                dec = configured n (behavior_name s @ ''.deceleration_limit'') (- 2.5)
            in if acc \<le> 0 \<or> 0 \<le> dec
               then acceleration_limit s' = \<bar>acc\<bar> \<and> deceleration_limit s' = - \<bar>dec\<bar>
                    \<and> logger s' = logger s @ [(ERROR, limits_message)]
               else acceleration_limit s' = acc \<and> deceleration_limit s' = dec
                    \<and> logger s' = logger s)"
    using assms parameter_names_distinct [of "behavior_name s"]
    by (auto simp: onConfigure_def Let_def get_after_declare configured_after_declare
        split: if_splits)
qed

text \<open>
  C9, as stated, fails when a limit is exactly zero: zero counts as misconfigured, but
  its absolute value is zero again, which is still not a valid (positive) acceleration
  limit. Configured with acceleration limit 0, the behaviour logs the message and keeps
  the limit 0.
\<close>

theorem zero_limit_stays_zero_counterexample:
  "map_sum id acceleration_limit (onConfigure stalled_behavior) = Inr 0
   \<and> map_sum id deceleration_limit (onConfigure stalled_behavior) = Inr (- 2.5)
   \<and> map_sum id logger (onConfigure stalled_behavior) = Inr [(ERROR, limits_message)]
   \<and> \<not> (0 :: real) < 0"
  by (simp add: onConfigure_def stalled_behavior_def declare_parameter_if_not_declared_def
      get_parameter_def Let_def)

text \<open>
  C9, amended. With a node that can be locked, a misconfigured pair (acceleration limit
  not positive, or deceleration limit not negative) does not make configuration fail:
  \<open>onConfigure\<close> returns normally, one message is written to the logger (the source
  logs it at error severity), the acceleration limit becomes its absolute value and the
  deceleration limit the negation of its absolute value. The stored acceleration limit
  is positive unless the configured one was exactly zero, and the stored deceleration
  limit is negative unless the configured one was exactly zero.
\<close>

theorem misconfigured_limits_corrected:
  assumes "node s = Some n"
    and "configured n (behavior_name s @ ''.acceleration_limit'') 2.5 \<le> 0
         \<or> 0 \<le> configured n (behavior_name s @ ''.deceleration_limit'') (- 2.5)"
  shows "\<exists>s'. onConfigure s = Inr s'
           \<and> acceleration_limit s'
               = \<bar>configured n (behavior_name s @ ''.acceleration_limit'') 2.5\<bar>
           \<and> deceleration_limit s'
               = - \<bar>configured n (behavior_name s @ ''.deceleration_limit'') (- 2.5)\<bar>
           \<and> (configured n (behavior_name s @ ''.acceleration_limit'') 2.5 \<noteq> 0
                \<longrightarrow> 0 < acceleration_limit s')
           \<and> (configured n (behavior_name s @ ''.deceleration_limit'') (- 2.5) \<noteq> 0
                \<longrightarrow> deceleration_limit s' < 0)
           \<and> logger s' = logger s @ [(ERROR, limits_message)]"
proof -
  from onConfigure_limits(1) [OF assms(1)] obtain s' where ok: "onConfigure s = Inr s'"
    by blast
  from onConfigure_limits(2) [OF assms(1) ok] assms(2)
  have "acceleration_limit s'
          = \<bar>configured n (behavior_name s @ ''.acceleration_limit'') 2.5\<bar>
        \<and> deceleration_limit s'
          = - \<bar>configured n (behavior_name s @ ''.deceleration_limit'') (- 2.5)\<bar>
        \<and> logger s' = logger s @ [(ERROR, limits_message)]"
    by (simp add: Let_def)
  with ok show ?thesis by simp
qed

theorem misconfigured_limits_corrected_witness:
  "(\<exists>s'. onConfigure backup_behavior = Inr s'
         \<and> acceleration_limit s' = 1 \<and> deceleration_limit s' = - 2
         \<and> 0 < acceleration_limit s' \<and> deceleration_limit s' < 0
         \<and> logger s' = [(ERROR, limits_message)])"
proof -
  have n: "node backup_behavior
             = Some \<lparr>parameters = [''backup.acceleration_limit'' \<mapsto> - 1,
                                    ''backup.deceleration_limit'' \<mapsto> 2]\<rparr>"
    by (simp add: backup_behavior_def)
  have bad: "configured \<lparr>parameters = [''backup.acceleration_limit'' \<mapsto> - 1,
                                        ''backup.deceleration_limit'' \<mapsto> 2]\<rparr>
               (behavior_name backup_behavior @ ''.acceleration_limit'') 2.5 \<le> 0
             \<or> 0 \<le> configured \<lparr>parameters = [''backup.acceleration_limit'' \<mapsto> - 1,
                                        ''backup.deceleration_limit'' \<mapsto> 2]\<rparr>
               (behavior_name backup_behavior @ ''.deceleration_limit'') (- 2.5)"
    by (simp add: backup_behavior_def configured_def)
  from misconfigured_limits_corrected [OF n bad]
  show ?thesis
    by (auto simp: backup_behavior_def configured_def)
qed

subsection \<open>Smoothing filter\<close>

lemma upt_nine: "[i..<i + 9] = [i, i + 1, i + 2, i + 3, i + 4, i + 5, i + 6, i + 7, i + 8]"
  by (simp add: upt_conv_Cons)

lemma applyFilter_fir9:
  "applyFilter savitsky_golay_filter (map (continued hist xs) [i..<i + 9]) = fir9 hist xs i"
  unfolding upt_nine
  by (simp add: applyFilter_def fir9_def savitsky_golay_filter_def lessThan_Suc
      numeral_eq_Suc)

lemma applyFilterOverAxis_loop_correct:
  assumes "idx \<le> num" and "length sq = num + 1" and "length init = num + 1"
    and "pts = map (continued hist init) [idx..<idx + 9]"
  shows "\<exists>sq'. applyFilterOverAxis_loop f num init idx sq pts = Inr sq'
           \<and> length sq' = num + 1
           \<and> (\<forall>i \<le> num. sq' ! i =
                 (if idx \<le> i \<and> i < num
                  then applyFilter f (map (continued hist init) [i..<i + 9])
                  else sq ! i))"
  using assms
proof (induction "num - idx" arbitrary: idx sq pts)
  case 0
  then have "idx = num" by simp
  then show ?case
    using "0.prems" by (subst applyFilterOverAxis_loop.simps) simp
next
  case (Suc d)
  then have lt: "idx < num" by simp
  let ?sq = "sq[idx := applyFilter f pts]"
  let ?refill = "if idx + 5 < num then idx + 5 else num"
  let ?pts = "tl pts @ [init ! ?refill]"
  have "idx + 9 - 4 = idx + 5" by simp
  then have c9: "continued hist init (idx + 9) = init ! min (idx + 5) num"
    using Suc.prems(3) by (simp add: continued_def add.commute)
  have "min (idx + 5) num = ?refill" by (simp add: min_def)
  with c9 have refill: "init ! ?refill = continued hist init (idx + 9)"
    by simp
  have t: "tl pts = map (continued hist init) [Suc idx..<idx + 9]"
    unfolding Suc.prems(4) by (metis map_tl tl_upt)
  have "[Suc idx..<Suc (idx + 9)] = [Suc idx..<idx + 9] @ [idx + 9]"
    by (rule upt_Suc_append) simp
  then have "map (continued hist init) [Suc idx..<Suc (idx + 9)] = ?pts"
    unfolding t refill by simp
  then have pts': "?pts = map (continued hist init) [(idx + 1)..<(idx + 1) + 9]"
    by simp
  have step: "applyFilterOverAxis_loop f num init idx sq pts
              = applyFilterOverAxis_loop f num init (idx + 1) ?sq ?pts"
    using lt Suc.prems(2,3)
    by (subst applyFilterOverAxis_loop.simps) (simp add: Let_def)
  have d: "d = num - (idx + 1)" using Suc.hyps(2) by simp
  from lt have le: "idx + 1 \<le> num" by simp
  have len: "length ?sq = num + 1" using Suc.prems(2) by simp
  from Suc.hyps(1) [OF d le len Suc.prems(3) pts']
  obtain sq' where r: "applyFilterOverAxis_loop f num init (idx + 1) ?sq ?pts = Inr sq'"
    and l: "length sq' = num + 1"
    and v: "\<forall>i \<le> num. sq' ! i =
              (if idx + 1 \<le> i \<and> i < num
               then applyFilter f (map (continued hist init) [i..<i + 9])
               else ?sq ! i)"
    by blast
  have "sq' ! i = (if idx \<le> i \<and> i < num
                   then applyFilter f (map (continued hist init) [i..<i + 9])
                   else sq ! i)" if "i \<le> num" for i
  proof (cases "i = idx")
    case True
    with v that lt Suc.prems(2,4) show ?thesis by simp
  next
    case False
    with v that show ?thesis by auto
  qed
  with r l step show ?case by simp
qed

lemma applyFilterOverAxis_correct:
  assumes "20 \<le> num" and "length xs = num + 1"
  shows "\<exists>ys. applyFilterOverAxis savitsky_golay_filter num xs xs h0 h1 h2 h3 = Inr ys
           \<and> length ys = num + 1
           \<and> (\<forall>i < num. ys ! i = fir9 [h0, h1, h2, h3] xs i)
           \<and> ys ! num = xs ! num"
proof -
  have pts: "[h0, h1, h2, h3, xs ! 0, xs ! 1, xs ! 2, xs ! 3, xs ! 4]
             = map (continued [h0, h1, h2, h3] xs) [0..<0 + 9]"
    using assms unfolding upt_nine by (simp add: continued_def)
  from applyFilterOverAxis_loop_correct [OF _ assms(2) assms(2) pts, of savitsky_golay_filter]
  obtain ys where
    r: "applyFilterOverAxis_loop savitsky_golay_filter num xs 0 xs
          [h0, h1, h2, h3, xs ! 0, xs ! 1, xs ! 2, xs ! 3, xs ! 4] = Inr ys"
    and l: "length ys = num + 1"
    and v: "\<forall>i \<le> num. ys ! i =
              (if 0 \<le> i \<and> i < num
               then applyFilter savitsky_golay_filter
                      (map (continued [h0, h1, h2, h3] xs) [i..<i + 9])
               else xs ! i)"
    by auto
  from v have "\<forall>i < num. ys ! i = fir9 [h0, h1, h2, h3] xs i"
    by (simp add: applyFilter_fir9)
  moreover from v have "ys ! num = xs ! num" by simp
  moreover have "applyFilterOverAxis savitsky_golay_filter num xs xs h0 h1 h2 h3 = Inr ys"
    using r assms by (simp add: applyFilterOverAxis_def)
  ultimately show ?thesis using l by blast
qed

lemma fir9_spike: "fir9 [0, 0, 0, 0] (1 # replicate 19 0) 0 = 59 / 231"
  unfolding fir9_def
  by (simp add: lessThan_Suc numeral_eq_Suc continued_def savitsky_golay_filter_def)

text \<open>
  C3, as stated, fails at the threshold: a horizon of exactly 20 steps is not smoothed.
  The sequence with a single 1 at the first step comes back unchanged, although the
  nine-point filter would put 59/231 there.
\<close>

theorem horizon_twenty_not_smoothed_counterexample:
  "length (vx (spike 20)) = 20
   \<and> savitskyGolayFilter (spike 20) zero_history \<lparr>shift_control_sequence = False\<rparr>
       = Inr (spike 20, zero_history)
   \<and> fir9 [0, 0, 0, 0] (vx (spike 20)) 0 \<noteq> vx (spike 20) ! 0"
proof (intro conjI)
  show "length (vx (spike 20)) = 20" by (simp add: spike_def)
  show "savitskyGolayFilter (spike 20) zero_history \<lparr>shift_control_sequence = False\<rparr>
          = Inr (spike 20, zero_history)"
    by (simp add: savitskyGolayFilter_def zero_history_def spike_def)
  have "fir9 [0, 0, 0, 0] (vx (spike 20)) 0 = 59 / 231"
    using fir9_spike by (simp add: spike_def)
  then show "fir9 [0, 0, 0, 0] (vx (spike 20)) 0 \<noteq> vx (spike 20) ! 0"
    by (simp add: spike_def)
qed

text \<open>
  C3, amended. The test is on the last index (size minus one) being below 20: for a
  horizon of 1 to 20 steps the filter returns without changing the control sequence or
  the control history. For a horizon of 21 steps or more (the three axes of one size) it
  replaces every element but the last, on each axis separately, by the nine-point
  weighted sum of the axis continued to the left by the four history values and to the
  right by its last value; the last element stays. It then drops the oldest history
  entry and appends the smoothed control at index 1 when the control sequence is
  shifted, at index 0 otherwise.
\<close>

theorem smoothing_filter_threshold_and_result:
  "(1 \<le> length (vx cs) \<and> length (vx cs) \<le> 20 \<longrightarrow>
      savitskyGolayFilter cs (h0, h1, h2, h3) st = Inr (cs, (h0, h1, h2, h3)))
   \<and> (21 \<le> length (vx cs) \<and> length (vx cs) \<le> 4294967296
        \<and> length (vy cs) = length (vx cs) \<and> length (wz cs) = length (vx cs) \<longrightarrow>
        (\<exists>cs' offset.
           savitskyGolayFilter cs (h0, h1, h2, h3) st
             = Inr (cs', (h1, h2, h3,
                          \<lparr>control_vx = vx cs' ! offset, control_vy = vy cs' ! offset,
                           control_wz = wz cs' ! offset\<rparr>))
           \<and> offset = (if shift_control_sequence st then 1 else 0)
           \<and> length (vx cs') = length (vx cs) \<and> length (vy cs') = length (vx cs)
           \<and> length (wz cs') = length (vx cs)
           \<and> (\<forall>i < length (vx cs) - 1.
                 vx cs' ! i
                   = fir9 [control_vx h0, control_vx h1, control_vx h2, control_vx h3] (vx cs) i
                 \<and> vy cs' ! i
                   = fir9 [control_vy h0, control_vy h1, control_vy h2, control_vy h3] (vy cs) i
                 \<and> wz cs' ! i
                   = fir9 [control_wz h0, control_wz h1, control_wz h2, control_wz h3] (wz cs) i)
           \<and> last (vx cs') = last (vx cs) \<and> last (vy cs') = last (vy cs)
           \<and> last (wz cs') = last (wz cs)))"
proof (intro conjI impI)
  assume "1 \<le> length (vx cs) \<and> length (vx cs) \<le> 20"
  then have short: "1 \<le> length (vx cs)" "length (vx cs) \<le> 20"
    by blast+
  then have "(int (length (vx cs)) - 1) mod 4294967296 = int (length (vx cs)) - 1"
    by (intro mod_pos_pos_trivial) auto
  with short have "nat ((int (length (vx cs)) - 1) mod 4294967296) < 20"
    by auto
  then show "savitskyGolayFilter cs (h0, h1, h2, h3) st = Inr (cs, (h0, h1, h2, h3))"
    by (simp add: savitskyGolayFilter_def Let_def)
next
  assume long: "21 \<le> length (vx cs) \<and> length (vx cs) \<le> 4294967296
        \<and> length (vy cs) = length (vx cs) \<and> length (wz cs) = length (vx cs)"
  then have a: "21 \<le> length (vx cs)" "length (vx cs) \<le> 4294967296"
    "length (vy cs) = length (vx cs)" "length (wz cs) = length (vx cs)"
    by blast+
  define num where "num = length (vx cs) - 1"
  from a have "(int (length (vx cs)) - 1) mod 4294967296 = int (length (vx cs)) - 1"
    by (intro mod_pos_pos_trivial) auto
  with a have num: "nat ((int (length (vx cs)) - 1) mod 4294967296) = num"
    by (auto simp: num_def)
  from a have n20: "20 \<le> num" and lx: "length (vx cs) = num + 1"
    and ly: "length (vy cs) = num + 1" and lz: "length (wz cs) = num + 1"
    by (simp_all add: num_def)
  from applyFilterOverAxis_correct [OF n20 lx]
  obtain xs where
    rx: "applyFilterOverAxis savitsky_golay_filter num (vx cs) (vx cs)
           (control_vx h0) (control_vx h1) (control_vx h2) (control_vx h3) = Inr xs"
    and xl: "length xs = num + 1"
    and xv: "\<forall>i < num. xs ! i
               = fir9 [control_vx h0, control_vx h1, control_vx h2, control_vx h3] (vx cs) i"
    and xe: "xs ! num = vx cs ! num"
    by blast
  from applyFilterOverAxis_correct [OF n20 ly]
  obtain ys where
    ry: "applyFilterOverAxis savitsky_golay_filter num (vy cs) (vy cs)
           (control_vy h0) (control_vy h1) (control_vy h2) (control_vy h3) = Inr ys"
    and yl: "length ys = num + 1"
    and yv: "\<forall>i < num. ys ! i
               = fir9 [control_vy h0, control_vy h1, control_vy h2, control_vy h3] (vy cs) i"
    and ye: "ys ! num = vy cs ! num"
    by blast
  from applyFilterOverAxis_correct [OF n20 lz]
  obtain zs where
    rz: "applyFilterOverAxis savitsky_golay_filter num (wz cs) (wz cs)
           (control_wz h0) (control_wz h1) (control_wz h2) (control_wz h3) = Inr zs"
    and zl: "length zs = num + 1"
    and zv: "\<forall>i < num. zs ! i
               = fir9 [control_wz h0, control_wz h1, control_wz h2, control_wz h3] (wz cs) i"
    and ze: "zs ! num = wz cs ! num"
    by blast
  let ?cs = "cs\<lparr>vx := xs, vy := ys, wz := zs\<rparr>"
  let ?off = "if shift_control_sequence st then 1 else 0 :: nat"
  have off: "?off < num + 1" using n20 by simp
  have res: "savitskyGolayFilter cs (h0, h1, h2, h3) st
             = Inr (?cs, (h1, h2, h3,
                          \<lparr>control_vx = vx ?cs ! ?off, control_vy = vy ?cs ! ?off,
                           control_wz = wz ?cs ! ?off\<rparr>))"
    using n20 rx ry rz xl yl zl
    by (simp add: savitskyGolayFilter_def Let_def num)
  have lasts: "last (vx ?cs) = last (vx cs)" "last (vy ?cs) = last (vy cs)"
    "last (wz ?cs) = last (wz cs)"
    using xl yl zl lx ly lz xe ye ze
    by (simp_all add: last_conv_nth flip: length_greater_0_conv)
  have vals: "\<forall>i < length (vx cs) - 1.
                 vx ?cs ! i
                   = fir9 [control_vx h0, control_vx h1, control_vx h2, control_vx h3] (vx cs) i
                 \<and> vy ?cs ! i
                   = fir9 [control_vy h0, control_vy h1, control_vy h2, control_vy h3] (vy cs) i
                 \<and> wz ?cs ! i
                   = fir9 [control_wz h0, control_wz h1, control_wz h2, control_wz h3] (wz cs) i"
    using xv yv zv by (simp add: num_def)
  have lens: "length (vx ?cs) = length (vx cs)" "length (vy ?cs) = length (vx cs)"
    "length (wz ?cs) = length (vx cs)"
    using xl yl zl lx by simp_all
  show "\<exists>cs' offset.
           savitskyGolayFilter cs (h0, h1, h2, h3) st
             = Inr (cs', (h1, h2, h3,
                          \<lparr>control_vx = vx cs' ! offset, control_vy = vy cs' ! offset,
                           control_wz = wz cs' ! offset\<rparr>))
           \<and> offset = (if shift_control_sequence st then 1 else 0)
           \<and> length (vx cs') = length (vx cs) \<and> length (vy cs') = length (vx cs)
           \<and> length (wz cs') = length (vx cs)
           \<and> (\<forall>i < length (vx cs) - 1.
                 vx cs' ! i
                   = fir9 [control_vx h0, control_vx h1, control_vx h2, control_vx h3] (vx cs) i
                 \<and> vy cs' ! i
                   = fir9 [control_vy h0, control_vy h1, control_vy h2, control_vy h3] (vy cs) i
                 \<and> wz cs' ! i
                   = fir9 [control_wz h0, control_wz h1, control_wz h2, control_wz h3] (wz cs) i)
           \<and> last (vx cs') = last (vx cs) \<and> last (vy cs') = last (vy cs)
           \<and> last (wz cs') = last (wz cs)"
    apply (rule exI [of _ ?cs])
    apply (rule exI [of _ ?off])
    apply (intro conjI res refl lens vals lasts)
    done
qed

theorem smoothing_filter_threshold_and_result_witness:
  "savitskyGolayFilter (spike 20) zero_history \<lparr>shift_control_sequence = True\<rparr>
     = Inr (spike 20, zero_history)
   \<and> (\<exists>cs' hist'.
         savitskyGolayFilter (spike 21) zero_history \<lparr>shift_control_sequence = True\<rparr>
           = Inr (cs', hist')
         \<and> vx cs' ! 0 = 59 / 231 \<and> last (vx cs') = 0 \<and> length (vx cs') = 21)"
proof -
  have short: "1 \<le> length (vx (spike 20)) \<and> length (vx (spike 20)) \<le> 20"
    by (simp add: spike_def)
  have long: "21 \<le> length (vx (spike 21)) \<and> length (vx (spike 21)) \<le> 4294967296
        \<and> length (vy (spike 21)) = length (vx (spike 21))
        \<and> length (wz (spike 21)) = length (vx (spike 21))"
    by (simp add: spike_def)
  have first: "fir9 [0, 0, 0, 0] (vx (spike 21)) 0 = 59 / 231"
    unfolding fir9_def
    by (simp add: lessThan_Suc numeral_eq_Suc continued_def savitsky_golay_filter_def
        spike_def)
  have l: "length (vx (spike 21)) = 21" "last (vx (spike 21)) = 0"
    by (simp_all add: spike_def)
  from short
    smoothing_filter_threshold_and_result [of "spike 20" zero_control zero_control
      zero_control zero_control "\<lparr>shift_control_sequence = True\<rparr>"]
  have a: "savitskyGolayFilter (spike 20) zero_history \<lparr>shift_control_sequence = True\<rparr>
             = Inr (spike 20, zero_history)"
    by (simp add: zero_history_def)
  from long
    smoothing_filter_threshold_and_result [of "spike 21" zero_control zero_control
      zero_control zero_control "\<lparr>shift_control_sequence = True\<rparr>"]
  obtain cs' hist' where
    r: "savitskyGolayFilter (spike 21) zero_history \<lparr>shift_control_sequence = True\<rparr>
          = Inr (cs', hist')"
    and len: "length (vx cs') = length (vx (spike 21))"
    and v: "\<forall>i < length (vx (spike 21)) - 1.
              vx cs' ! i = fir9 [control_vx zero_control, control_vx zero_control,
                                 control_vx zero_control, control_vx zero_control]
                             (vx (spike 21)) i"
    and e: "last (vx cs') = last (vx (spike 21))"
    unfolding zero_history_def by blast
  from v l(1) have "vx cs' ! 0 = fir9 [0, 0, 0, 0] (vx (spike 21)) 0"
    by (simp add: zero_control_def)
  with first have b: "vx cs' ! 0 = 59 / 231" by simp
  from e l(2) have c: "last (vx cs') = 0" by simp
  from len l(1) have d: "length (vx cs') = 21" by simp
  show ?thesis
    by (intro conjI exI [of _ cs'] exI [of _ hist'] a r b c d)
qed

subsection \<open>Furthest reached path point\<close>

lemma nearest_loop_spec:
  assumes "j \<le> n"
  shows "\<exists>m. nearest_loop d n j md mi = Inr m
           \<and> ((m = mi \<and> (\<forall>k. j \<le> k \<and> k < n \<longrightarrow> \<not> d k < md))
              \<or> (j \<le> m \<and> m < n \<and> d m < md
                  \<and> (\<forall>k. j \<le> k \<and> k < n \<longrightarrow> d m \<le> d k)
                  \<and> (\<forall>k. j \<le> k \<and> k < m \<longrightarrow> d m < d k)))"
  using assms
proof (induction "n - j" arbitrary: j md mi)
  case 0
  then have "j = n" by simp
  then show ?case by (subst nearest_loop.simps) simp
next
  case (Suc x)
  then have lt: "j < n" and x: "x = n - (j + 1)" and le: "j + 1 \<le> n" by simp_all
  show ?case
  proof (cases "d j < md")
    case True
    with lt have step: "nearest_loop d n j md mi = nearest_loop d n (j + 1) (d j) j"
      by (subst nearest_loop.simps) (simp add: Let_def)
    from Suc.hyps(1) [OF x le, of "d j" j]
    obtain m where r: "nearest_loop d n (j + 1) (d j) j = Inr m"
      and c: "(m = j \<and> (\<forall>k. j + 1 \<le> k \<and> k < n \<longrightarrow> \<not> d k < d j))
              \<or> (j + 1 \<le> m \<and> m < n \<and> d m < d j
                  \<and> (\<forall>k. j + 1 \<le> k \<and> k < n \<longrightarrow> d m \<le> d k)
                  \<and> (\<forall>k. j + 1 \<le> k \<and> k < m \<longrightarrow> d m < d k))"
      by blast
    have split: "k = j \<or> j + 1 \<le> k" if "j \<le> k" for k using that by auto
    from c have "j \<le> m \<and> m < n \<and> d m < md
                  \<and> (\<forall>k. j \<le> k \<and> k < n \<longrightarrow> d m \<le> d k)
                  \<and> (\<forall>k. j \<le> k \<and> k < m \<longrightarrow> d m < d k)"
    proof
      assume a: "m = j \<and> (\<forall>k. j + 1 \<le> k \<and> k < n \<longrightarrow> \<not> d k < d j)"
      with lt True show ?thesis
        using split by (metis linorder_not_less order_refl leD)
    next
      assume b: "j + 1 \<le> m \<and> m < n \<and> d m < d j
                  \<and> (\<forall>k. j + 1 \<le> k \<and> k < n \<longrightarrow> d m \<le> d k)
                  \<and> (\<forall>k. j + 1 \<le> k \<and> k < m \<longrightarrow> d m < d k)"
      with True have "d m < md" by simp
      moreover from b have "j \<le> m" by simp
      moreover have "d m \<le> d k" if "j \<le> k \<and> k < n" for k
        using split [of k] that b by (metis less_imp_le)
      moreover have "d m < d k" if "j \<le> k \<and> k < m" for k
        using split [of k] that b by metis
      ultimately show ?thesis using b by blast
    qed
    with step r show ?thesis by simp
  next
    case False
    with lt have step: "nearest_loop d n j md mi = nearest_loop d n (j + 1) md mi"
      by (subst nearest_loop.simps) (simp add: Let_def)
    from Suc.hyps(1) [OF x le, of md mi]
    obtain m where r: "nearest_loop d n (j + 1) md mi = Inr m"
      and c: "(m = mi \<and> (\<forall>k. j + 1 \<le> k \<and> k < n \<longrightarrow> \<not> d k < md))
              \<or> (j + 1 \<le> m \<and> m < n \<and> d m < md
                  \<and> (\<forall>k. j + 1 \<le> k \<and> k < n \<longrightarrow> d m \<le> d k)
                  \<and> (\<forall>k. j + 1 \<le> k \<and> k < m \<longrightarrow> d m < d k))"
      by blast
    have split: "k = j \<or> j + 1 \<le> k" if "j \<le> k" for k using that by auto
    from c have "(m = mi \<and> (\<forall>k. j \<le> k \<and> k < n \<longrightarrow> \<not> d k < md))
              \<or> (j \<le> m \<and> m < n \<and> d m < md
                  \<and> (\<forall>k. j \<le> k \<and> k < n \<longrightarrow> d m \<le> d k)
                  \<and> (\<forall>k. j \<le> k \<and> k < m \<longrightarrow> d m < d k))"
    proof
      assume a: "m = mi \<and> (\<forall>k. j + 1 \<le> k \<and> k < n \<longrightarrow> \<not> d k < md)"
      have "\<not> d k < md" if "j \<le> k \<and> k < n" for k
        using split [of k] that a False by metis
      with a show ?thesis by blast
    next
      assume b: "j + 1 \<le> m \<and> m < n \<and> d m < md
                  \<and> (\<forall>k. j + 1 \<le> k \<and> k < n \<longrightarrow> d m \<le> d k)
                  \<and> (\<forall>k. j + 1 \<le> k \<and> k < m \<longrightarrow> d m < d k)"
      from b False have dj: "d m < d j" by simp
      from b have "j \<le> m" by simp
      moreover have "d m \<le> d k" if "j \<le> k \<and> k < n" for k
        using split [of k] that b dj by (metis less_imp_le)
      moreover have "d m < d k" if "j \<le> k \<and> k < m" for k
        using split [of k] that b dj by metis
      ultimately show ?thesis using b by blast
    qed
    with step r show ?thesis by simp
  qed
qed

lemma nearest_loop_total:
  assumes "j \<le> n"
  shows "\<exists>m. nearest_loop d n j md mi = Inr m \<and> (m = mi \<or> (j \<le> m \<and> m < n))"
  using nearest_loop_spec [OF assms, of d md mi] by blast

lemma furthest_loop_Suc:
  assumes "i \<le> r"
  shows "furthest_loop d (Suc r) n i c =
           (case furthest_loop d r n i c of
              Inl e \<Rightarrow> Inl e
            | Inr m \<Rightarrow>
                (case nearest_loop (d r) n m FLT_MAX 0 of
                   Inl e \<Rightarrow> Inl e
                 | Inr k \<Rightarrow> Inr (max m k)))"
  using assms
proof (induction "r - i" arbitrary: i c)
  case 0
  then have i: "i = r" by simp
  have "furthest_loop d r n r c = Inr c"
    by (subst furthest_loop.simps) simp
  moreover have "furthest_loop d (Suc r) n (Suc r) c' = Inr c'" for c'
    by (subst furthest_loop.simps) simp
  ultimately show ?case
    unfolding i by (subst furthest_loop.simps) (simp split: sum.splits)
next
  case (Suc x)
  then have lt: "i < r" and x: "x = r - (i + 1)" and le: "i + 1 \<le> r" by simp_all
  have l: "furthest_loop d (Suc r) n i c =
             (case nearest_loop (d i) n c FLT_MAX 0 of
                Inl e \<Rightarrow> Inl e
              | Inr k \<Rightarrow> furthest_loop d (Suc r) n (i + 1) (max c k))"
    using lt by (subst furthest_loop.simps) simp
  have r: "furthest_loop d r n i c =
             (case nearest_loop (d i) n c FLT_MAX 0 of
                Inl e \<Rightarrow> Inl e
              | Inr k \<Rightarrow> furthest_loop d r n (i + 1) (max c k))"
    using lt by (subst furthest_loop.simps) simp
  show ?case
    unfolding l r using Suc.hyps(1) [OF x le] by (simp split: sum.splits)
qed

lemma furthest_loop_zero: "furthest_loop d 0 n 0 c = Inr c"
  by (subst furthest_loop.simps) simp

lemma furthest_loop_total:
  "\<exists>m. furthest_loop d r n 0 0 = Inr m \<and> (m = 0 \<or> m < n)"
proof (induction r)
  case 0
  show ?case by (simp add: furthest_loop_zero)
next
  case (Suc r)
  then obtain m where m: "furthest_loop d r n 0 0 = Inr m" "m = 0 \<or> m < n"
    by blast
  then have "m \<le> n" by auto
  from nearest_loop_total [OF this, of "d r" FLT_MAX 0]
  obtain k where k: "nearest_loop (d r) n m FLT_MAX 0 = Inr k" "k = 0 \<or> (m \<le> k \<and> k < n)"
    by blast
  have "furthest_loop d (Suc r) n 0 0 = Inr (max m k)"
    using m(1) k(1) by (simp add: furthest_loop_Suc)
  moreover have "max m k = 0 \<or> max m k < n"
    using m(2) k(2) by (auto simp: max_def)
  ultimately show ?case by blast
qed

lemma cursor_is_running_max:
  fixes cs ns :: "nat \<Rightarrow> nat"
  assumes "cs 0 = 0" and "\<And>i. cs (Suc i) = max (cs i) (ns i)"
  shows "cs r = Max (insert 0 (ns ` {..<r}))"
proof (induction r)
  case 0
  show ?case by (simp add: assms(1))
next
  case (Suc r)
  have "Max (insert 0 (ns ` {..<Suc r})) = Max (insert (ns r) (insert 0 (ns ` {..<r})))"
    by (simp add: lessThan_Suc insert_commute)
  also have "\<dots> = max (ns r) (Max (insert 0 (ns ` {..<r})))"
    by (rule Max_insert) simp_all
  finally show ?case
    using Suc assms(2) [of r] by (simp add: max.commute)
qed

lemma furthest_loop_by_helper:
  assumes "0 < arr_cols (traj_x (trajectories data))"
  shows "\<exists>cs ns.
           cs 0 = 0
           \<and> (\<forall>i \<le> arr_rows (traj_x (trajectories data)). row_cursor data i = Inr (cs i))
           \<and> (\<forall>i < arr_rows (traj_x (trajectories data)).
                 row_nearest data i (cs i) = Inr (ns i) \<and> cs (i + 1) = max (cs i) (ns i))
           \<and> findPathFurthestReachedPoint data
               = Inr (cs (arr_rows (traj_x (trajectories data))))
           \<and> (\<forall>i k. i \<le> k \<and> k \<le> arr_rows (traj_x (trajectories data)) \<longrightarrow> cs i \<le> cs k)
           \<and> (\<forall>i k. k < i \<and> i \<le> arr_rows (traj_x (trajectories data)) \<longrightarrow> ns k \<le> cs i)
           \<and> cs (arr_rows (traj_x (trajectories data)))
               = Max (insert 0 (ns ` {..<arr_rows (traj_x (trajectories data))}))
           \<and> (\<forall>i < arr_rows (traj_x (trajectories data)).
                 (\<exists>j. cs i \<le> j \<and> j < length (path_x (path data))
                        \<and> dists data i j < FLT_MAX) \<longrightarrow>
                 cs i \<le> ns i \<and> ns i < length (path_x (path data))
                 \<and> (\<forall>j. cs i \<le> j \<and> j < length (path_x (path data)) \<longrightarrow>
                        dists data i (ns i) \<le> dists data i j)
                 \<and> (\<forall>j. cs i \<le> j \<and> j < ns i \<longrightarrow>
                        dists data i (ns i) < dists data i j))"
proof -
  let ?n = "length (path_x (path data))"
  let ?rows = "arr_rows (traj_x (trajectories data))"
  define cs where "cs i = projr (row_cursor data i)" for i
  define ns where "ns i = projr (row_nearest data i (cs i))" for i
  have cur: "row_cursor data i = Inr (cs i)" and bound: "cs i = 0 \<or> cs i < ?n" for i
    using furthest_loop_total [of "dists data" i ?n]
    by (auto simp: cs_def row_cursor_def)
  have le: "cs i \<le> ?n" for i using bound [of i] by auto
  have near: "row_nearest data i (cs i) = Inr (ns i)" for i
    using nearest_loop_total [OF le, of "dists data i" i FLT_MAX 0]
    by (auto simp: ns_def row_nearest_def)
  have zero: "cs 0 = 0"
    using cur [of 0] by (simp add: row_cursor_def furthest_loop_zero)
  have step: "cs (Suc i) = max (cs i) (ns i)" for i
  proof -
    have "row_cursor data (Suc i) = Inr (max (cs i) (ns i))"
      using cur [of i] near [of i]
      by (simp add: row_cursor_def row_nearest_def furthest_loop_Suc)
    with cur [of "Suc i"] show ?thesis by simp
  qed
  have mono: "cs i \<le> cs k" if "i \<le> k" for i k
    using that by (rule lift_Suc_mono_le [rotated]) (simp add: step)
  have earlier: "ns k \<le> cs i" if "k < i" for i k
  proof -
    have "ns k \<le> cs (Suc k)" by (simp add: step)
    also from that have "cs (Suc k) \<le> cs i" by (intro mono) simp
    finally show ?thesis .
  qed
  have result: "findPathFurthestReachedPoint data = Inr (cs ?rows)"
    using assms cur [of ?rows]
    by (simp add: findPathFurthestReachedPoint_def Let_def row_cursor_def)
  have maxi: "cs ?rows = Max (insert 0 (ns ` {..<?rows}))"
    using zero step by (rule cursor_is_running_max)
  have argmin: "cs i \<le> ns i \<and> ns i < ?n
                 \<and> (\<forall>j. cs i \<le> j \<and> j < ?n \<longrightarrow> dists data i (ns i) \<le> dists data i j)
                 \<and> (\<forall>j. cs i \<le> j \<and> j < ns i \<longrightarrow> dists data i (ns i) < dists data i j)"
    if "\<exists>j. cs i \<le> j \<and> j < ?n \<and> dists data i j < FLT_MAX" for i
    using nearest_loop_spec [OF le, of "dists data i" i FLT_MAX 0] near [of i] that
    unfolding row_nearest_def by auto
  show ?thesis
    apply (rule exI [of _ cs])
    apply (rule exI [of _ ns])
    using zero cur near step result mono earlier maxi argmin
    apply (intro conjI allI impI)
    apply simp_all
    done
qed

lemma nearest_loop_step:
  "j < n \<Longrightarrow> nearest_loop d n j md mi =
     (if d j < md then nearest_loop d n (j + 1) (d j) j
      else nearest_loop d n (j + 1) md mi)"
proof -
  assume "j < n"
  then show ?thesis
    by (subst nearest_loop.simps) (simp add: Let_def)
qed

lemma nearest_loop_done: "nearest_loop d n n md mi = Inr mi"
  by (subst nearest_loop.simps) simp


lemma example_path_length: "length (path_x (path example_context)) = 3"
  by (simp add: example_context_def)

lemma example_dists_row0: "dists example_context 0 0 = 2" "dists example_context 0 (Suc 0) = 0"
    "dists example_context 0 (Suc (Suc 0)) = 17"
  by (simp_all add: dists_def coeff_def example_context_def)

lemma example_dists_row1: "dists example_context (Suc 0) (Suc 0) = 17"
  "dists example_context (Suc 0) (Suc (Suc 0)) = 0"
  by (simp_all add: dists_def coeff_def example_context_def)

lemma example_nearest_row0: "row_nearest example_context 0 0 = Inr 1"
  unfolding row_nearest_def example_path_length
  by (simp add: nearest_loop_step nearest_loop_done example_dists_row0 FLT_MAX_def eval_nat_numeral)

lemma example_nearest_row1: "row_nearest example_context 1 1 = Inr 2"
  unfolding row_nearest_def example_path_length
  by (simp add: nearest_loop_step nearest_loop_done example_dists_row1 FLT_MAX_def eval_nat_numeral)

text \<open>
  C2. Take a trajectory batch with at least one time step and any path. Write
  \<open>last_x i\<close>, \<open>last_y i\<close> for the position of trajectory row \<open>i\<close> at the final time
  step and \<open>sq_dist i j\<close> for the squared distance from there to path point \<open>j\<close>.
  Let \<open>cs i\<close> be the cursor of row \<open>i\<close> (the search start of its inner loop) and
  \<open>ns i\<close> the index that loop finds. The cursors start at 0 and each next one is the
  larger of the previous cursor and the index found, so they never decrease, every row
  starts at or beyond the index found by any earlier row, and the value returned is the
  cursor after the last row, the maximum of the indices found over all rows. The index
  found for a row is the first path index, at or beyond its cursor, of least
  \<open>sq_dist\<close> (whenever one of those distances is below \<open>FLT_MAX\<close>, the loop's
  initial minimum).
\<close>

theorem furthest_reached_point_cursor_monotone:
  fixes data :: CriticData
  defines "last_x \<equiv> \<lambda>i. coeff (traj_x (trajectories data)) i
                               (arr_cols (traj_x (trajectories data)) - 1)"
    and "last_y \<equiv> \<lambda>i. coeff (traj_y (trajectories data)) i
                               (arr_cols (traj_x (trajectories data)) - 1)"
  defines "sq_dist \<equiv> \<lambda>i j. (path_x (path data) ! j - last_x i) ^ 2
                              + (path_y (path data) ! j - last_y i) ^ 2"
  assumes "0 < arr_cols (traj_x (trajectories data))"
  shows "\<exists>cs ns.
           cs 0 = 0
           \<and> (\<forall>i \<le> arr_rows (traj_x (trajectories data)). row_cursor data i = Inr (cs i))
           \<and> (\<forall>i < arr_rows (traj_x (trajectories data)).
                 row_nearest data i (cs i) = Inr (ns i) \<and> cs (i + 1) = max (cs i) (ns i))
           \<and> findPathFurthestReachedPoint data
               = Inr (cs (arr_rows (traj_x (trajectories data))))
           \<and> (\<forall>i k. i \<le> k \<and> k \<le> arr_rows (traj_x (trajectories data)) \<longrightarrow> cs i \<le> cs k)
           \<and> (\<forall>i k. k < i \<and> i \<le> arr_rows (traj_x (trajectories data)) \<longrightarrow> ns k \<le> cs i)
           \<and> cs (arr_rows (traj_x (trajectories data)))
               = Max (insert 0 (ns ` {..<arr_rows (traj_x (trajectories data))}))
           \<and> (\<forall>i < arr_rows (traj_x (trajectories data)).
                 (\<exists>j. cs i \<le> j \<and> j < length (path_x (path data))
                        \<and> sq_dist i j < FLT_MAX) \<longrightarrow>
                 cs i \<le> ns i \<and> ns i < length (path_x (path data))
                 \<and> (\<forall>j. cs i \<le> j \<and> j < length (path_x (path data)) \<longrightarrow>
                        sq_dist i (ns i) \<le> sq_dist i j)
                 \<and> (\<forall>j. cs i \<le> j \<and> j < ns i \<longrightarrow>
                        sq_dist i (ns i) < sq_dist i j))"
proof -
  have "sq_dist = dists data"
    by (intro ext)
      (simp add: sq_dist_def last_x_def last_y_def dists_def Let_def power2_eq_square)
  then show ?thesis
    using furthest_loop_by_helper [OF assms(4)] by simp
qed

theorem furthest_reached_point_cursor_monotone_witness:
  "0 < arr_cols (traj_x (trajectories example_context))
   \<and> findPathFurthestReachedPoint example_context = Inr 2
   \<and> row_cursor example_context 0 = Inr 0
   \<and> row_nearest example_context 0 0 = Inr 1
   \<and> row_cursor example_context 1 = Inr 1
   \<and> row_nearest example_context 1 1 = Inr 2
   \<and> row_cursor example_context 2 = Inr 2"
proof -
  let ?R = "arr_rows (traj_x (trajectories example_context))"
  have cols: "0 < arr_cols (traj_x (trajectories example_context))"
    and rows: "?R = 2"
    by (simp_all add: example_context_def)
  have r0: "0 < ?R" and r1: "1 < ?R" and r2: "2 \<le> ?R" by (simp_all add: rows)
  from furthest_reached_point_cursor_monotone [OF cols] show ?thesis
  proof (elim exE conjE)
    fix cs ns :: "nat \<Rightarrow> nat"
    assume zero: "cs 0 = 0"
      and cur: "\<forall>i \<le> ?R. row_cursor example_context i = Inr (cs i)"
      and near: "\<forall>i < ?R. row_nearest example_context i (cs i) = Inr (ns i)
                          \<and> cs (i + 1) = max (cs i) (ns i)"
      and res: "findPathFurthestReachedPoint example_context = Inr (cs ?R)"
    from near r0 have n0: "row_nearest example_context 0 (cs 0) = Inr (ns 0)"
      and s0: "cs (0 + 1) = max (cs 0) (ns 0)"
      by blast+
    from n0 zero example_nearest_row0 have "ns 0 = 1" by simp
    with s0 zero have c1: "cs 1 = 1" by simp
    from near r1 have n1: "row_nearest example_context 1 (cs 1) = Inr (ns 1)"
      and s1: "cs (1 + 1) = max (cs 1) (ns 1)"
      by blast+
    from n1 c1 example_nearest_row1 have "ns 1 = 2" by simp
    with s1 c1 have "cs (1 + 1) = 2" by simp
    then have c2: "cs 2 = 2" by (simp only: one_add_one)
    from cur r2 have k2: "row_cursor example_context 2 = Inr (cs 2)" by blast
    from cur r1 have k1: "row_cursor example_context 1 = Inr (cs 1)" by simp
    from cur have k0: "row_cursor example_context 0 = Inr (cs 0)" by simp
    from res rows have "findPathFurthestReachedPoint example_context = Inr (cs 2)" by simp
    with k0 k1 k2 zero c1 c2 cols example_nearest_row0 example_nearest_row1
    show ?thesis by simp
  qed
qed

subsection \<open>Warm-start shift\<close>

lemma copy_span_nth:
  assumes "first + s \<le> length mem" and "dest + s \<le> length mem"
  shows "\<exists>mem'. copy_span mem (int first) s (int dest) = Inr mem'
           \<and> length mem' = length mem
           \<and> (\<forall>p < length mem. mem' ! p =
                 (if dest \<le> p \<and> p < dest + s then mem ! (first + (p - dest)) else mem ! p))"
proof (cases "s = 0")
  case True
  then show ?thesis by (simp add: copy_span_def)
next
  case False
  let ?m = "take dest mem @ take s (drop first mem) @ drop (dest + s) mem"
  have r: "copy_span mem (int first) s (int dest) = Inr ?m"
    using assms False by (simp add: copy_span_def)
  have l: "length ?m = length mem" using assms by simp
  have "?m ! p = (if dest \<le> p \<and> p < dest + s then mem ! (first + (p - dest)) else mem ! p)"
    if "p < length mem" for p
  proof -
    consider "p < dest" | "dest \<le> p" "p < dest + s" | "dest + s \<le> p"
      by linarith
    then show ?thesis
    proof cases
      case 1
      with that assms show ?thesis by (auto simp: nth_append)
    next
      case 2
      with that assms have "?m ! p = (take s (drop first mem)) ! (p - dest)"
        by (auto simp: nth_append)
      also have "\<dots> = mem ! (first + (p - dest))"
        using 2 assms by auto
      finally show ?thesis using 2 by simp
    next
      case 3
      with that assms have "?m ! p = drop (dest + s) mem ! (p - dest - s)"
        by (auto simp: nth_append)
      also have "\<dots> = mem ! p"
        using 3 that by auto
      finally show ?thesis using 3 by simp
    qed
  qed
  with r l show ?thesis by blast
qed


lemma shift_loop_right:
  assumes "0 < s" and "length mem = c * s" and "k + 2 \<le> c"
  shows "\<exists>mem'. shift_loop 1 s 0 (int (k * s)) mem = Some (Inr mem')
           \<and> length mem' = c * s
           \<and> (\<forall>p < c * s. mem' ! p =
                 (if s \<le> p \<and> p < (k + 2) * s then mem ! (p - s) else mem ! p))"
  using assms
proof (induction k arbitrary: mem)
  case 0
  have "0 + s \<le> length mem" "s + s \<le> length mem"
    using "0.prems" by (auto simp: mult_le_mono1 [of 2 c s, simplified mult_2])
  from copy_span_nth [OF this]
  obtain m where r: "copy_span mem (int 0) s (int s) = Inr m"
    and l: "length m = length mem"
    and v: "\<forall>p < length mem. m ! p =
              (if s \<le> p \<and> p < s + s then mem ! (0 + (p - s)) else mem ! p)"
    by blast
  have "shift_loop 1 s 0 (int (0 * s)) mem = Some (Inr m)"
    using r by (subst shift_loop.simps) simp
  with l v "0.prems" show ?case by (auto simp: mult_2)
next
  case (Suc k)
  have ks: "Suc k * s + s \<le> length mem" "(Suc k * s + s) + s \<le> length mem"
  proof -
    have "(k + 3) * s \<le> c * s" using Suc.prems by (intro mult_le_mono1) simp
    then show "Suc k * s + s \<le> length mem" "(Suc k * s + s) + s \<le> length mem"
      using Suc.prems by (simp_all add: algebra_simps)
  qed
  from copy_span_nth [OF ks]
  obtain m where r: "copy_span mem (int (Suc k * s)) s (int (Suc k * s + s)) = Inr m"
    and l: "length m = length mem"
    and v: "\<forall>p < length mem. m ! p =
              (if Suc k * s + s \<le> p \<and> p < Suc k * s + s + s
               then mem ! (Suc k * s + (p - (Suc k * s + s))) else mem ! p)"
    by blast
  have "Suc k * s \<noteq> 0" using Suc.prems(1) by simp
  then have ne: "int (Suc k * s) \<noteq> 0" by (simp only: of_nat_eq_0_iff not_False_eq_True)
  have nx: "int (Suc k * s) - 1 * int s = int (k * s)" by (simp add: algebra_simps)
  have ds: "int (Suc k * s) + 1 * int s = int (Suc k * s + s)" by simp
  have step: "shift_loop 1 s 0 (int (Suc k * s)) mem = shift_loop 1 s 0 (int (k * s)) m"
    using ne by (subst shift_loop.simps) (simp only: nx ds r if_True sum.case simp_thms)
  from Suc.prems l have lm: "length m = c * s" by simp
  from Suc.prems have "k + 2 \<le> c" by simp
  from Suc.IH [OF Suc.prems(1) lm this]
  obtain m' where r': "shift_loop 1 s 0 (int (k * s)) m = Some (Inr m')"
    and l': "length m' = c * s"
    and v': "\<forall>p < c * s. m' ! p = (if s \<le> p \<and> p < (k + 2) * s then m ! (p - s) else m ! p)"
    by blast
  have "m' ! p = (if s \<le> p \<and> p < (Suc k + 2) * s then mem ! (p - s) else mem ! p)"
    if p: "p < c * s" for p
  proof -
    have pm: "p < length mem" "p - s < length mem" using p Suc.prems by simp_all
    consider "p < s" | "s \<le> p" "p < (k + 2) * s" | "(k + 2) * s \<le> p" "p < (k + 3) * s"
      | "(k + 3) * s \<le> p" by linarith
    then show ?thesis
    proof cases
      case 1
      with v' v p pm show ?thesis by (simp add: algebra_simps)
    next
      case 2
      then have "p - s < Suc k * s + s" by (simp add: algebra_simps)
      with 2 v' v p pm show ?thesis by (simp add: algebra_simps)
    next
      case 3
      then have a: "Suc k * s + s \<le> p" "p < Suc k * s + s + s"
        by (simp_all add: algebra_simps)
      have "Suc k * s + (p - (Suc k * s + s)) = p - s" using a by simp
      with 3 a v' v p pm show ?thesis by (simp add: algebra_simps)
    next
      case 4
      then have a: "\<not> p < Suc k * s + s + s" "\<not> p < (k + 2) * s" "\<not> p < (Suc k + 2) * s"
        by (simp_all add: algebra_simps)
      with v' v p pm show ?thesis by simp
    qed
  qed
  with step r' l' show ?case by simp
qed


lemma shift_loop_left:
  assumes "0 < s" and "length mem = (j + d + 2) * s"
  shows "\<exists>mem'. shift_loop (- 1) s (int ((j + d + 1) * s)) (int ((j + 1) * s)) mem
             = Some (Inr mem')
           \<and> length mem' = (j + d + 2) * s
           \<and> (\<forall>p < (j + d + 2) * s. mem' ! p =
                 (if j * s \<le> p \<and> p < (j + d + 1) * s then mem ! (p + s) else mem ! p))"
  using assms
proof (induction d arbitrary: j mem)
  case 0
  have "(j + 1) * s + s \<le> length mem" "j * s + s \<le> length mem"
    using "0.prems" by (simp_all add: algebra_simps)
  from copy_span_nth [OF this]
  obtain m where r: "copy_span mem (int ((j + 1) * s)) s (int (j * s)) = Inr m"
    and l: "length m = length mem"
    and v: "\<forall>p < length mem. m ! p =
              (if j * s \<le> p \<and> p < j * s + s then mem ! ((j + 1) * s + (p - j * s))
               else mem ! p)"
    by blast
  have ds: "int ((j + 1) * s) + - 1 * int s = int (j * s)" by (simp add: algebra_simps)
  have "shift_loop (- 1) s (int ((j + 0 + 1) * s)) (int ((j + 1) * s)) mem = Some (Inr m)"
    by (subst shift_loop.simps) (simp only: ds r add_0_right if_False simp_thms)
  moreover have "m ! p = (if j * s \<le> p \<and> p < (j + 0 + 1) * s then mem ! (p + s) else mem ! p)"
    if "p < (j + 0 + 2) * s" for p
  proof (cases "j * s \<le> p \<and> p < j * s + s")
    case True
    then have "(j + 1) * s + (p - j * s) = p + s" by (simp add: algebra_simps)
    with True v that "0.prems" show ?thesis by (simp add: algebra_simps)
  next
    case False
    with v that "0.prems" show ?thesis by (auto simp: algebra_simps)
  qed
  ultimately show ?case using l "0.prems" by auto
next
  case (Suc d)
  have "(j + 1) * s + s \<le> length mem" "j * s + s \<le> length mem"
    using Suc.prems by (simp_all add: algebra_simps)
  from copy_span_nth [OF this]
  obtain m where r: "copy_span mem (int ((j + 1) * s)) s (int (j * s)) = Inr m"
    and l: "length m = length mem"
    and v: "\<forall>p < length mem. m ! p =
              (if j * s \<le> p \<and> p < j * s + s then mem ! ((j + 1) * s + (p - j * s))
               else mem ! p)"
    by blast
  have "(j + 1) * s \<noteq> (j + Suc d + 1) * s"
    unfolding mult_cancel2 using Suc.prems(1) by simp
  then have ne: "int ((j + 1) * s) \<noteq> int ((j + Suc d + 1) * s)"
    by (simp only: of_nat_eq_iff not_False_eq_True)
  have ds: "int ((j + 1) * s) + - 1 * int s = int (j * s)" by (simp add: algebra_simps)
  have nx: "int ((j + 1) * s) - - 1 * int s = int ((Suc j + 1) * s)"
    by (simp add: algebra_simps)
  have en: "(j + Suc d + 1) * s = (Suc j + d + 1) * s" by simp
  have step: "shift_loop (- 1) s (int ((j + Suc d + 1) * s)) (int ((j + 1) * s)) mem
              = shift_loop (- 1) s (int ((Suc j + d + 1) * s)) (int ((Suc j + 1) * s)) m"
    using ne by (subst shift_loop.simps) (simp only: nx ds r en if_True sum.case simp_thms)
  from Suc.prems l have lm: "length m = (Suc j + d + 2) * s" by simp
  from Suc.IH [OF Suc.prems(1) lm]
  obtain m' where
    r': "shift_loop (- 1) s (int ((Suc j + d + 1) * s)) (int ((Suc j + 1) * s)) m
           = Some (Inr m')"
    and l': "length m' = (Suc j + d + 2) * s"
    and v': "\<forall>p < (Suc j + d + 2) * s. m' ! p =
               (if Suc j * s \<le> p \<and> p < (Suc j + d + 1) * s then m ! (p + s) else m ! p)"
    by blast
  have "m' ! p = (if j * s \<le> p \<and> p < (j + Suc d + 1) * s then mem ! (p + s) else mem ! p)"
    if p: "p < (j + Suc d + 2) * s" for p
  proof -
    have pm: "p < length mem" "p < (Suc j + d + 2) * s" using p Suc.prems by simp_all
    consider "p < j * s" | "j * s \<le> p" "p < j * s + s"
      | "j * s + s \<le> p" "p < (j + Suc d + 1) * s" | "(j + Suc d + 1) * s \<le> p"
      by linarith
    then show ?thesis
    proof cases
      case 1
      then have "\<not> Suc j * s \<le> p" by simp
      with 1 v' v pm show ?thesis by simp
    next
      case 2
      then have a: "\<not> Suc j * s \<le> p" by simp
      from 2 have e: "(j + 1) * s + (p - j * s) = p + s" by (simp add: algebra_simps)
      from 2 have b: "p < (j + Suc d + 1) * s" by (simp add: algebra_simps)
      from v' pm a have "m' ! p = m ! p" by simp
      also from v pm 2 have "\<dots> = mem ! ((j + 1) * s + (p - j * s))" by simp
      finally show ?thesis using 2 b e by (simp add: add.commute)
    next
      case 3
      then have a: "Suc j * s \<le> p" "p < (Suc j + d + 1) * s" by simp_all
      from 3 pm have b: "p + s < length mem" "\<not> p + s < j * s + s"
        using Suc.prems by (simp_all add: algebra_simps)
      from 3 have c: "j * s \<le> p" by simp
      from v' pm a have "m' ! p = m ! (p + s)" by simp
      also from v b have "\<dots> = mem ! (p + s)" by simp
      finally show ?thesis using 3 c by simp
    next
      case 4
      then have a: "\<not> p < (Suc j + d + 1) * s" "\<not> p < j * s + s"
        by (simp_all add: algebra_simps)
      with 4 v' v pm show ?thesis by simp
    qed
  qed
  with step r' l' show ?case by simp
qed


lemma shift_loop_whole:
  assumes "0 < s" and "2 \<le> c" and "length mem = c * s"
  shows "\<exists>mem'. shift_loop 1 s 0 (int (c * s) - 2 * int s) mem = Some (Inr mem')
           \<and> length mem' = length mem
           \<and> (\<forall>p < length mem. mem' ! p = (if s \<le> p then mem ! (p - s) else mem ! p))"
    and "\<exists>mem'. shift_loop (- 1) s (int (c * s) - int s) (int s) mem = Some (Inr mem')
           \<and> length mem' = length mem
           \<and> (\<forall>p < length mem. mem' ! p =
                 (if p + s < length mem then mem ! (p + s) else mem ! p))"
proof -
  obtain k where c: "c = k + 2"
    using assms(2) by (metis add.commute le_Suc_ex)
  have st: "int (c * s) - 2 * int s = int (k * s)"
    by (simp add: c algebra_simps)
  from shift_loop_right [OF assms(1) assms(3), of k] c
  show "\<exists>mem'. shift_loop 1 s 0 (int (c * s) - 2 * int s) mem = Some (Inr mem')
           \<and> length mem' = length mem
           \<and> (\<forall>p < length mem. mem' ! p = (if s \<le> p then mem ! (p - s) else mem ! p))"
    unfolding st assms(3) by auto
  have en: "int (c * s) - int s = int ((0 + k + 1) * s)"
    by (simp add: c algebra_simps)
  have s1: "int s = int ((0 + 1) * s)" by simp
  have len: "length mem = (0 + k + 2) * s" using assms(3) c by simp
  have "(p < (0 + k + 1) * s) = (p + s < (0 + k + 2) * s)" for p
    by (simp add: algebra_simps)
  with shift_loop_left [OF assms(1) len]
  show "\<exists>mem'. shift_loop (- 1) s (int (c * s) - int s) (int s) mem = Some (Inr mem')
           \<and> length mem' = length mem
           \<and> (\<forall>p < length mem. mem' ! p =
                 (if p + s < length mem then mem ! (p + s) else mem ! p))"
    unfolding en len by (subst s1) auto
qed


lemma shiftColumnsByOnePlace_flat:
  assumes wf: "length (arr_data e) = arr_rows e * arr_cols e"
    and big: "1 < arr_rows e * arr_cols e"
  defines "s \<equiv> (if arr_cols e = 1 \<or> arr_rows e = 1 then 1 else arr_rows e)"
  shows "\<exists>mem'. shiftColumnsByOnePlace e 1 = Some (Inr (e\<lparr>arr_data := mem'\<rparr>))
           \<and> length mem' = length (arr_data e)
           \<and> (\<forall>p < length (arr_data e). mem' ! p =
                 (if s \<le> p then arr_data e ! (p - s) else arr_data e ! p))"
    and "\<exists>mem'. shiftColumnsByOnePlace e (- 1) = Some (Inr (e\<lparr>arr_data := mem'\<rparr>))
           \<and> length mem' = length (arr_data e)
           \<and> (\<forall>p < length (arr_data e). mem' ! p =
                 (if p + s < length (arr_data e) then arr_data e ! (p + s)
                  else arr_data e ! p))"
proof -
  let ?n = "arr_rows e * arr_cols e"
  have "int ?n > 1" using big by (metis of_nat_1 of_nat_less_iff)
  then have size: "int ?n \<noteq> 1" "int ?n > 1" by simp_all
  show "\<exists>mem'. shiftColumnsByOnePlace e 1 = Some (Inr (e\<lparr>arr_data := mem'\<rparr>))
           \<and> length mem' = length (arr_data e)
           \<and> (\<forall>p < length (arr_data e). mem' ! p =
                 (if s \<le> p then arr_data e ! (p - s) else arr_data e ! p))"
  proof (cases "arr_cols e = 1 \<or> arr_rows e = 1")
    case True
    have l: "length (arr_data e) = ?n * 1" using wf by simp
    have c: "2 \<le> ?n" using big by simp
    from shift_loop_whole(1) [OF _ c l]
    obtain mem' where
      r: "shift_loop 1 1 0 (int (?n * 1) - 2 * int 1) (arr_data e) = Some (Inr mem')"
      and v: "length mem' = length (arr_data e)"
        "\<forall>p < length (arr_data e). mem' ! p =
           (if 1 \<le> p then arr_data e ! (p - 1) else arr_data e ! p)"
      by auto
    from r have "shift_loop 1 1 0 (int ?n - 2) (arr_data e) = Some (Inr mem')"
      by simp
    then have "shiftColumnsByOnePlace e 1 = Some (Inr (e\<lparr>arr_data := mem'\<rparr>))"
      using True size unfolding shiftColumnsByOnePlace_def Let_def by simp
    with v True show ?thesis unfolding s_def by auto
  next
    case False
    then have s: "s = arr_rows e" by (simp add: s_def)
    have pos: "0 < arr_rows e" "2 \<le> arr_cols e"
      using big False by (cases "arr_rows e"; cases "arr_cols e"; auto)+
    have l: "length (arr_data e) = arr_cols e * arr_rows e" using wf by (simp add: mult.commute)
    from shift_loop_whole(1) [OF pos l]
    obtain mem' where
      r: "shift_loop 1 (arr_rows e) 0 (int (arr_cols e * arr_rows e) - 2 * int (arr_rows e))
            (arr_data e) = Some (Inr mem')"
      and v: "length mem' = length (arr_data e)"
        "\<forall>p < length (arr_data e). mem' ! p =
           (if arr_rows e \<le> p then arr_data e ! (p - arr_rows e) else arr_data e ! p)"
      by auto
    have "int (arr_rows e * arr_cols e) = int (arr_cols e * arr_rows e)"
      by (simp add: mult.commute)
    with r have "shift_loop 1 (arr_rows e) 0
                   (int (arr_rows e * arr_cols e) - 2 * int (arr_rows e))
                   (arr_data e) = Some (Inr mem')"
      by (simp add: mult.commute)
    then have "shiftColumnsByOnePlace e 1 = Some (Inr (e\<lparr>arr_data := mem'\<rparr>))"
      using False size unfolding shiftColumnsByOnePlace_def Let_def by simp
    with v show ?thesis unfolding s by auto
  qed
  show "\<exists>mem'. shiftColumnsByOnePlace e (- 1) = Some (Inr (e\<lparr>arr_data := mem'\<rparr>))
           \<and> length mem' = length (arr_data e)
           \<and> (\<forall>p < length (arr_data e). mem' ! p =
                 (if p + s < length (arr_data e) then arr_data e ! (p + s)
                  else arr_data e ! p))"
  proof (cases "arr_cols e = 1 \<or> arr_rows e = 1")
    case True
    have l: "length (arr_data e) = ?n * 1" using wf by simp
    have c: "2 \<le> ?n" using big by simp
    from shift_loop_whole(2) [OF _ c l]
    obtain mem' where
      r: "shift_loop (- 1) 1 (int (?n * 1) - int 1) (int 1) (arr_data e) = Some (Inr mem')"
      and v: "length mem' = length (arr_data e)"
        "\<forall>p < length (arr_data e). mem' ! p =
           (if p + 1 < length (arr_data e) then arr_data e ! (p + 1) else arr_data e ! p)"
      by auto
    from r have "shift_loop (- 1) 1 (int ?n - 1) 1 (arr_data e) = Some (Inr mem')"
      by simp
    then have "shiftColumnsByOnePlace e (- 1) = Some (Inr (e\<lparr>arr_data := mem'\<rparr>))"
      using True size unfolding shiftColumnsByOnePlace_def Let_def by simp
    with v True show ?thesis unfolding s_def by auto
  next
    case False
    then have s: "s = arr_rows e" by (simp add: s_def)
    have pos: "0 < arr_rows e" "2 \<le> arr_cols e"
      using big False by (cases "arr_rows e"; cases "arr_cols e"; auto)+
    have l: "length (arr_data e) = arr_cols e * arr_rows e" using wf by (simp add: mult.commute)
    from shift_loop_whole(2) [OF pos l]
    obtain mem' where
      r: "shift_loop (- 1) (arr_rows e) (int (arr_cols e * arr_rows e) - int (arr_rows e))
            (int (arr_rows e)) (arr_data e) = Some (Inr mem')"
      and v: "length mem' = length (arr_data e)"
        "\<forall>p < length (arr_data e). mem' ! p =
           (if p + arr_rows e < length (arr_data e) then arr_data e ! (p + arr_rows e)
            else arr_data e ! p)"
      by auto
    have "int (arr_rows e * arr_cols e) = int (arr_cols e * arr_rows e)"
      by (simp add: mult.commute)
    with r have "shift_loop (- 1) (arr_rows e)
                   (int (arr_rows e * arr_cols e) - int (arr_rows e)) (int (arr_rows e))
                   (arr_data e) = Some (Inr mem')"
      by (simp add: mult.commute)
    then have "shiftColumnsByOnePlace e (- 1) = Some (Inr (e\<lparr>arr_data := mem'\<rparr>))"
      using False size unfolding shiftColumnsByOnePlace_def Let_def by simp
    with v show ?thesis unfolding s by auto
  qed
qed


lemma flat_index:
  fixes i j r c :: nat
  assumes "i < r" and "j < c"
  shows "j * r + i < r * c"
    and "(r \<le> j * r + i) = (1 \<le> j)"
    and "1 \<le> j \<Longrightarrow> j * r + i - r = (j - 1) * r + i"
    and "(j * r + i + r < r * c) = (j + 1 < c)"
proof -
  have "j * r + i < j * r + r" using assms(1) by simp
  also have "\<dots> = (j + 1) * r" by simp
  also have "\<dots> \<le> c * r" using assms(2) by (intro mult_le_mono1) simp
  finally show "j * r + i < r * c" by (simp add: mult.commute)
  show "(r \<le> j * r + i) = (1 \<le> j)"
    using assms(1) by (cases j) auto
  show "j * r + i - r = (j - 1) * r + i" if "1 \<le> j"
    using that by (cases j) auto
  show "(j * r + i + r < r * c) = (j + 1 < c)"
  proof
    assume a: "j * r + i + r < r * c"
    show "j + 1 < c"
    proof (rule ccontr)
      assume "\<not> j + 1 < c"
      then have "c \<le> j + 1" by simp
      then have "c * r \<le> (j + 1) * r" by (rule mult_le_mono1)
      with a show False by (simp add: mult.commute)
    qed
  next
    assume "j + 1 < c"
    then have "j + 2 \<le> c" by simp
    then have "(j + 2) * r \<le> c * r" by (rule mult_le_mono1)
    moreover have "j * r + i + r < (j + 2) * r" using assms(1) by simp
    ultimately show "j * r + i + r < r * c" by (simp add: mult.commute)
  qed
qed

lemma shift_loop_at_end:
  "shift_loop direction s end_ptr end_ptr mem
     = Some (copy_span mem end_ptr s (end_ptr + direction * int s))"
  by (subst shift_loop.simps) simp

text \<open>
  C10, as stated, fails on a one-dimensional array held as a single column: there the
  scalars move along the column, so column 0 does change. Shifting the column (1, 2) by
  direction 1 gives (1, 1).
\<close>

theorem single_column_changes_counterexample:
  "1 < arr_rows column_1_2 * arr_cols column_1_2
   \<and> shiftColumnsByOnePlace column_1_2 1 = Some (Inr (column_1_2\<lparr>arr_data := [1, 1]\<rparr>))
   \<and> coeff (column_1_2\<lparr>arr_data := [1, 1]\<rparr>) 1 0 \<noteq> coeff column_1_2 1 0"
  by (simp add: column_1_2_def shiftColumnsByOnePlace_def shift_loop_at_end copy_span_def
      coeff_def)


lemma shift_right_coeffs:
  assumes wf: "length (arr_data e) = arr_rows e * arr_cols e"
    and big: "1 < arr_rows e * arr_cols e"
  shows "\<exists>e'. shiftColumnsByOnePlace e 1 = Some (Inr e')
           \<and> arr_rows e' = arr_rows e \<and> arr_cols e' = arr_cols e
           \<and> length (arr_data e') = length (arr_data e)
           \<and> (\<not> (arr_cols e = 1 \<and> 1 < arr_rows e) \<longrightarrow>
                (\<forall>i < arr_rows e. \<forall>j < arr_cols e.
                   coeff e' i j = (if 1 \<le> j then coeff e i (j - 1) else coeff e i j)))
           \<and> (arr_cols e = 1 \<longrightarrow>
                (\<forall>i < arr_rows e.
                   coeff e' i 0 = (if 1 \<le> i then coeff e (i - 1) 0 else coeff e i 0)))"
proof -
  let ?s = "if arr_cols e = 1 \<or> arr_rows e = 1 then 1 else arr_rows e"
  from shiftColumnsByOnePlace_flat(1) [OF wf big]
  obtain mem' where r: "shiftColumnsByOnePlace e 1 = Some (Inr (e\<lparr>arr_data := mem'\<rparr>))"
    and l: "length mem' = length (arr_data e)"
    and v: "\<And>p. p < length (arr_data e) \<Longrightarrow>
              mem' ! p = (if ?s \<le> p then arr_data e ! (p - ?s) else arr_data e ! p)"
    by blast
  have cols: "coeff (e\<lparr>arr_data := mem'\<rparr>) i j
                = (if 1 \<le> j then coeff e i (j - 1) else coeff e i j)"
    if n: "\<not> (arr_cols e = 1 \<and> 1 < arr_rows e)" and i: "i < arr_rows e" and j: "j < arr_cols e"
    for i j
  proof -
    note fi = flat_index [OF i j]
    have p: "j * arr_rows e + i < length (arr_data e)" using fi(1) wf by simp
    show ?thesis
    proof (cases "arr_rows e = 1")
      case True
      with i have "i = 0" by simp
      with True v [OF p] show ?thesis by (simp add: coeff_def)
    next
      case False
      with n big have s: "?s = arr_rows e" by auto
      from v [OF p] fi(2) fi(3) show ?thesis
        unfolding s by (simp add: coeff_def)
    qed
  qed
  have col: "coeff (e\<lparr>arr_data := mem'\<rparr>) i 0
               = (if 1 \<le> i then coeff e (i - 1) 0 else coeff e i 0)"
    if c: "arr_cols e = 1" and i: "i < arr_rows e" for i
  proof -
    have "i < length (arr_data e)" using i c wf by simp
    from v [OF this] c show ?thesis by (simp add: coeff_def)
  qed
  show ?thesis
    apply (rule exI [of _ "e\<lparr>arr_data := mem'\<rparr>"])
    using r l cols col
    apply simp
    done
qed

lemma shift_left_coeffs:
  assumes wf: "length (arr_data e) = arr_rows e * arr_cols e"
    and big: "1 < arr_rows e * arr_cols e"
  shows "\<exists>e'. shiftColumnsByOnePlace e (- 1) = Some (Inr e')
           \<and> arr_rows e' = arr_rows e \<and> arr_cols e' = arr_cols e
           \<and> length (arr_data e') = length (arr_data e)
           \<and> (\<not> (arr_cols e = 1 \<and> 1 < arr_rows e) \<longrightarrow>
                (\<forall>i < arr_rows e. \<forall>j < arr_cols e.
                   coeff e' i j = (if j + 1 < arr_cols e then coeff e i (j + 1) else coeff e i j)))
           \<and> (arr_cols e = 1 \<longrightarrow>
                (\<forall>i < arr_rows e.
                   coeff e' i 0 = (if i + 1 < arr_rows e then coeff e (i + 1) 0 else coeff e i 0)))"
proof -
  let ?s = "if arr_cols e = 1 \<or> arr_rows e = 1 then 1 else arr_rows e"
  from shiftColumnsByOnePlace_flat(2) [OF wf big]
  obtain mem' where r: "shiftColumnsByOnePlace e (- 1) = Some (Inr (e\<lparr>arr_data := mem'\<rparr>))"
    and l: "length mem' = length (arr_data e)"
    and v: "\<And>p. p < length (arr_data e) \<Longrightarrow>
              mem' ! p = (if p + ?s < length (arr_data e) then arr_data e ! (p + ?s)
                          else arr_data e ! p)"
    by blast
  have cols: "coeff (e\<lparr>arr_data := mem'\<rparr>) i j
                = (if j + 1 < arr_cols e then coeff e i (j + 1) else coeff e i j)"
    if n: "\<not> (arr_cols e = 1 \<and> 1 < arr_rows e)" and i: "i < arr_rows e" and j: "j < arr_cols e"
    for i j
  proof -
    note fi = flat_index [OF i j]
    have p: "j * arr_rows e + i < length (arr_data e)" using fi(1) wf by simp
    show ?thesis
    proof (cases "arr_rows e = 1")
      case True
      with i have "i = 0" by simp
      with True v [OF p] wf show ?thesis by (simp add: coeff_def)
    next
      case False
      with n big have s: "?s = arr_rows e" by auto
      have "(j + 1) * arr_rows e + i = j * arr_rows e + i + arr_rows e" by simp
      with v [OF p] fi(4) wf show ?thesis
        unfolding s by (simp add: coeff_def ac_simps)
    qed
  qed
  have col: "coeff (e\<lparr>arr_data := mem'\<rparr>) i 0
               = (if i + 1 < arr_rows e then coeff e (i + 1) 0 else coeff e i 0)"
    if c: "arr_cols e = 1" and i: "i < arr_rows e" for i
  proof -
    have "i < length (arr_data e)" using i c wf by simp
    from v [OF this] c wf show ?thesis by (simp add: coeff_def)
  qed
  show ?thesis
    apply (rule exI [of _ "e\<lparr>arr_data := mem'\<rparr>"])
    using r l cols col
    apply simp
    done
qed


text \<open>
  C10, amended. On a well-formed array (as many coefficients as rows times columns):
  with exactly one element the shift returns the array untouched, for any direction.
  With more than one element it throws the logic error exactly when the direction is
  neither 1 nor -1; otherwise it returns normally, keeping the dimensions. In an array
  that is not a single column, direction 1 puts column \<open>j - 1\<close> of the input into every
  column \<open>j \<ge> 1\<close> and leaves column 0, and direction -1 puts column \<open>j + 1\<close> into
  every column \<open>j \<le> n - 2\<close> and leaves the last column. In a single column of several
  rows (a one-dimensional array) the entries move along the column instead: direction
  1 puts entry \<open>i - 1\<close> into every entry \<open>i \<ge> 1\<close> and leaves entry 0, direction -1
  puts entry \<open>i + 1\<close> into every entry but the last.
\<close>

theorem shift_columns_by_one_place:
  assumes "length (arr_data e) = arr_rows e * arr_cols e"
  shows "(arr_rows e * arr_cols e = 1 \<longrightarrow> shiftColumnsByOnePlace e direction = Some (Inr e))
   \<and> (1 < arr_rows e * arr_cols e \<longrightarrow>
        ((\<exists>msg. shiftColumnsByOnePlace e direction = Some (Inl (logic_error msg)))
           \<longleftrightarrow> direction \<noteq> 1 \<and> direction \<noteq> - 1)
        \<and> (direction = 1 \<or> direction = - 1 \<longrightarrow>
             (\<exists>e'. shiftColumnsByOnePlace e direction = Some (Inr e')
                \<and> arr_rows e' = arr_rows e \<and> arr_cols e' = arr_cols e
                \<and> length (arr_data e') = length (arr_data e)
                \<and> (\<not> (arr_cols e = 1 \<and> 1 < arr_rows e) \<longrightarrow>
                     (\<forall>i < arr_rows e. \<forall>j < arr_cols e.
                        coeff e' i j =
                          (if direction = 1
                           then (if 1 \<le> j then coeff e i (j - 1) else coeff e i j)
                           else (if j + 1 < arr_cols e then coeff e i (j + 1)
                                 else coeff e i j))))
                \<and> (arr_cols e = 1 \<longrightarrow>
                     (\<forall>i < arr_rows e.
                        coeff e' i 0 =
                          (if direction = 1
                           then (if 1 \<le> i then coeff e (i - 1) 0 else coeff e i 0)
                           else (if i + 1 < arr_rows e then coeff e (i + 1) 0
                                 else coeff e i 0)))))))"
proof (intro conjI impI)
  assume "arr_rows e * arr_cols e = 1"
  then show "shiftColumnsByOnePlace e direction = Some (Inr e)"
    by (simp add: shiftColumnsByOnePlace_def)
next
  assume big: "1 < arr_rows e * arr_cols e"
  then have ne: "int (arr_rows e * arr_cols e) \<noteq> 1" by linarith
  show "(\<exists>msg. shiftColumnsByOnePlace e direction = Some (Inl (logic_error msg)))
          = (direction \<noteq> 1 \<and> direction \<noteq> - 1)"
  proof (cases "direction = 1 \<or> direction = - 1")
    case True
    with shift_right_coeffs [OF assms big] shift_left_coeffs [OF assms big]
    obtain e' where "shiftColumnsByOnePlace e direction = Some (Inr e')"
      by blast
    with True show ?thesis by auto
  next
    case False
    then have "\<bar>direction\<bar> \<noteq> 1" by linarith
    with ne have "shiftColumnsByOnePlace e direction
        = Some (Inl (logic_error ''Invalid direction, only 1 and -1 are valid values.''))"
      unfolding shiftColumnsByOnePlace_def Let_def by simp
    with False show ?thesis by auto
  qed
next
  assume big: "1 < arr_rows e * arr_cols e" and dir: "direction = 1 \<or> direction = - 1"
  from dir show "\<exists>e'. shiftColumnsByOnePlace e direction = Some (Inr e')
                \<and> arr_rows e' = arr_rows e \<and> arr_cols e' = arr_cols e
                \<and> length (arr_data e') = length (arr_data e)
                \<and> (\<not> (arr_cols e = 1 \<and> 1 < arr_rows e) \<longrightarrow>
                     (\<forall>i < arr_rows e. \<forall>j < arr_cols e.
                        coeff e' i j =
                          (if direction = 1
                           then (if 1 \<le> j then coeff e i (j - 1) else coeff e i j)
                           else (if j + 1 < arr_cols e then coeff e i (j + 1)
                                 else coeff e i j))))
                \<and> (arr_cols e = 1 \<longrightarrow>
                     (\<forall>i < arr_rows e.
                        coeff e' i 0 =
                          (if direction = 1
                           then (if 1 \<le> i then coeff e (i - 1) 0 else coeff e i 0)
                           else (if i + 1 < arr_rows e then coeff e (i + 1) 0
                                 else coeff e i 0))))"
  proof
    assume d: "direction = 1"
    from shift_right_coeffs [OF assms big] show ?thesis
      unfolding d by simp
  next
    assume d: "direction = - 1"
    from shift_left_coeffs [OF assms big] show ?thesis
      unfolding d by simp
  qed
qed

theorem shift_columns_by_one_place_witness:
  "shiftColumnsByOnePlace \<lparr>arr_rows = 1, arr_cols = 1, arr_data = [7]\<rparr> 5
     = Some (Inr \<lparr>arr_rows = 1, arr_cols = 1, arr_data = [7]\<rparr>)
   \<and> (\<exists>msg. shiftColumnsByOnePlace square_1_2_3_4 5 = Some (Inl (logic_error msg)))
   \<and> (\<exists>e'. shiftColumnsByOnePlace square_1_2_3_4 1 = Some (Inr e')
          \<and> coeff e' 0 0 = 1 \<and> coeff e' 1 0 = 2 \<and> coeff e' 0 1 = 1 \<and> coeff e' 1 1 = 2)
   \<and> (\<exists>e'. shiftColumnsByOnePlace column_1_2 (- 1) = Some (Inr e')
          \<and> coeff e' 0 0 = 2 \<and> coeff e' 1 0 = 2)"
proof -
  have one: "length (arr_data \<lparr>arr_rows = 1, arr_cols = 1, arr_data = [7]\<rparr>)
             = arr_rows \<lparr>arr_rows = 1, arr_cols = 1, arr_data = [7]\<rparr>
               * arr_cols \<lparr>arr_rows = 1, arr_cols = 1, arr_data = [7]\<rparr>"
    by simp
  have sq: "length (arr_data square_1_2_3_4)
            = arr_rows square_1_2_3_4 * arr_cols square_1_2_3_4"
    by (simp add: square_1_2_3_4_def)
  have cl: "length (arr_data column_1_2) = arr_rows column_1_2 * arr_cols column_1_2"
    by (simp add: column_1_2_def)
  have a: "shiftColumnsByOnePlace \<lparr>arr_rows = 1, arr_cols = 1, arr_data = [7]\<rparr> 5
             = Some (Inr \<lparr>arr_rows = 1, arr_cols = 1, arr_data = [7]\<rparr>)"
    using shift_columns_by_one_place [OF one, of 5] by simp
  have b: "\<exists>msg. shiftColumnsByOnePlace square_1_2_3_4 5 = Some (Inl (logic_error msg))"
    using shift_columns_by_one_place [OF sq, of 5] by (simp add: square_1_2_3_4_def)
  have dims: "arr_rows square_1_2_3_4 = 2" "arr_cols square_1_2_3_4 = 2"
    "arr_rows column_1_2 = 2" "arr_cols column_1_2 = 1"
    by (simp_all add: square_1_2_3_4_def column_1_2_def)
  from shift_columns_by_one_place [OF sq, of 1]
  obtain e' where r: "shiftColumnsByOnePlace square_1_2_3_4 1 = Some (Inr e')"
    and v: "\<forall>i < 2. \<forall>j < 2. coeff e' i j =
              (if 1 \<le> j then coeff square_1_2_3_4 i (j - 1) else coeff square_1_2_3_4 i j)"
    unfolding dims by auto
  have cs: "coeff square_1_2_3_4 0 0 = 1" "coeff square_1_2_3_4 1 0 = 2"
    by (simp_all add: coeff_def square_1_2_3_4_def)
  from v have "coeff e' 0 0 = coeff square_1_2_3_4 0 0"
    "coeff e' 1 0 = coeff square_1_2_3_4 1 0"
    "coeff e' 0 1 = coeff square_1_2_3_4 0 0"
    "coeff e' 1 1 = coeff square_1_2_3_4 1 0"
    by simp_all
  with r cs have c: "\<exists>e'. shiftColumnsByOnePlace square_1_2_3_4 1 = Some (Inr e')
          \<and> coeff e' 0 0 = 1 \<and> coeff e' 1 0 = 2 \<and> coeff e' 0 1 = 1 \<and> coeff e' 1 1 = 2"
    by simp
  from shift_columns_by_one_place [OF cl, of "- 1"]
  obtain e'' where r': "shiftColumnsByOnePlace column_1_2 (- 1) = Some (Inr e'')"
    and v': "\<forall>i < 2. coeff e'' i 0 =
              (if i + 1 < 2 then coeff column_1_2 (i + 1) 0 else coeff column_1_2 i 0)"
    unfolding dims by auto
  have cc: "coeff column_1_2 1 0 = 2"
    by (simp add: coeff_def column_1_2_def)
  from v' have "coeff e'' 0 0 = coeff column_1_2 1 0" "coeff e'' 1 0 = coeff column_1_2 1 0"
    by simp_all
  with r' cc have d: "\<exists>e'. shiftColumnsByOnePlace column_1_2 (- 1) = Some (Inr e')
          \<and> coeff e' 0 0 = 2 \<and> coeff e' 1 0 = 2"
    by simp
  from a b c d show ?thesis by (intro conjI)
qed

end
